theory Spec2Isabelle
  imports Main
begin

section \<open>Run-time failures\<close>

text \<open>
  Go code fails by panicking. A panic is a value of the model: every function of
  \<^verbatim>\<open>interp/ast.go\<close> that can panic returns \<open>panic + 'a\<close>, with \<open>Inl\<close> the panic.
  \<^item> \<open>ParsePanic err\<close>: \<^verbatim>\<open>panic(err)\<close> in \<^verbatim>\<open>Ast\<close>, carrying the parser's error;
  \<^item> \<open>IndexOutOfRange\<close>: the run-time panic of an array or slice read outside its bounds.
\<close>

datatype panic = ParsePanic string | IndexOutOfRange

section \<open>Kinds and actions\<close>

text \<open>
  \<^verbatim>\<open>type Kind int\<close> and \<^verbatim>\<open>type Action int\<close>: both are integers, and their constants
  are numbered by \<^verbatim>\<open>iota\<close>. \<^verbatim>\<open>Field\<close> and \<^verbatim>\<open>Range\<close> carry a suffix because HOL
  has constants of these names.
\<close>

type_synonym Kind = int

definition Undef :: Kind where "Undef = 0"
definition ArrayType :: Kind where "ArrayType = 1"
definition AssignStmt :: Kind where "AssignStmt = 2"
definition BasicLit :: Kind where "BasicLit = 3"
definition BinaryExpr :: Kind where "BinaryExpr = 4"
definition BlockStmt :: Kind where "BlockStmt = 5"
definition BranchStmt :: Kind where "BranchStmt = 6"
definition Break :: Kind where "Break = 7"
definition CallExpr :: Kind where "CallExpr = 8"
definition CompositeLit :: Kind where "CompositeLit = 9"
definition Continue :: Kind where "Continue = 10"
definition ExprStmt :: Kind where "ExprStmt = 11"
definition Fallthrough :: Kind where "Fallthrough = 12"
definition Field_kind :: Kind where "Field_kind = 13"
definition FieldList :: Kind where "FieldList = 14"
definition File :: Kind where "File = 15"
definition For0 :: Kind where "For0 = 16"
definition For1 :: Kind where "For1 = 17"
definition For2 :: Kind where "For2 = 18"
definition For3 :: Kind where "For3 = 19"
definition For4 :: Kind where "For4 = 20"
definition ForRangeStmt :: Kind where "ForRangeStmt = 21"
definition ForStmt :: Kind where "ForStmt = 22"
definition FuncDecl :: Kind where "FuncDecl = 23"
definition FuncType :: Kind where "FuncType = 24"
definition Goto :: Kind where "Goto = 25"
definition Ident :: Kind where "Ident = 26"
definition If0 :: Kind where "If0 = 27"
definition If1 :: Kind where "If1 = 28"
definition If2 :: Kind where "If2 = 29"
definition If3 :: Kind where "If3 = 30"
definition IfStmt :: Kind where "IfStmt = 31"
definition IncDecStmt :: Kind where "IncDecStmt = 32"
definition IndexExpr :: Kind where "IndexExpr = 33"
definition ParenExpr :: Kind where "ParenExpr = 34"
definition RangeStmt :: Kind where "RangeStmt = 35"
definition ReturnStmt :: Kind where "ReturnStmt = 36"

lemmas Kind_defs =
  Undef_def ArrayType_def AssignStmt_def BasicLit_def BinaryExpr_def BlockStmt_def
  BranchStmt_def Break_def CallExpr_def CompositeLit_def Continue_def ExprStmt_def
  Fallthrough_def Field_kind_def FieldList_def File_def For0_def For1_def For2_def For3_def
  For4_def ForRangeStmt_def ForStmt_def FuncDecl_def FuncType_def Goto_def Ident_def If0_def
  If1_def If2_def If3_def IfStmt_def IncDecStmt_def IndexExpr_def ParenExpr_def RangeStmt_def
  ReturnStmt_def

type_synonym Action = int

definition Nop :: Action where "Nop = 0"
definition ArrayLit :: Action where "ArrayLit = 1"
definition Assign :: Action where "Assign = 2"
definition AssignX :: Action where "AssignX = 3"
definition Add :: Action where "Add = 4"
definition And :: Action where "And = 5"
definition Call :: Action where "Call = 6"
definition Dec :: Action where "Dec = 7"
definition Equal :: Action where "Equal = 8"
definition Greater :: Action where "Greater = 9"
definition GetIndex :: Action where "GetIndex = 10"
definition Inc :: Action where "Inc = 11"
definition Lower :: Action where "Lower = 12"
definition Println :: Action where "Println = 13"
definition Range_action :: Action where "Range_action = 14"
definition Return :: Action where "Return = 15"
definition Sub :: Action where "Sub = 16"

lemmas Action_defs =
  Nop_def ArrayLit_def Assign_def AssignX_def Add_def And_def Call_def Dec_def Equal_def
  Greater_def GetIndex_def Inc_def Lower_def Println_def Range_action_def Return_def Sub_def

text \<open>
  A keyed array literal \<^verbatim>\<open>[...]string{k: v, ...}\<close>: its length is the largest key plus
  one, and a slot that no key names holds the empty string.
\<close>

definition keyed_array :: "(int \<times> string) list \<Rightarrow> string list" where
  "keyed_array kvs =
     fold (\<lambda>(k, v) t. t[nat k := v]) kvs
       (replicate (Suc (nat (fold max (map fst kvs) 0))) [])"

definition kinds :: "string list" where
  "kinds = keyed_array
     [(Undef, ''Undef''),
      (ArrayType, ''ArrayType''),
      (AssignStmt, ''AssignStmt''),
      (BasicLit, ''BasicLit''),
      (BinaryExpr, ''BinaryExpr''),
      (BlockStmt, ''BlockStmt''),
      (BranchStmt, ''BranchStmt''),
      (Break, ''Break''),
      (CallExpr, ''CallExpr''),
      (CompositeLit, ''CompositLit''),
      (Continue, ''Continue''),
      (ExprStmt, ''ExprStmt''),
      (Field_kind, ''Field''),
      (FieldList, ''FieldList''),
      (File, ''File''),
      (For0, ''For0''),
      (For1, ''For1''),
      (For2, ''For2''),
      (For3, ''For3''),
      (For4, ''For4''),
      (ForRangeStmt, ''ForRangeStmt''),
      (ForStmt, ''ForStmt''),
      (FuncDecl, ''FuncDecl''),
      (FuncType, ''FuncType''),
      (Goto, ''Goto''),
      (Ident, ''Ident''),
      (If0, ''If0''),
      (If1, ''If1''),
      (If2, ''If2''),
      (If3, ''If3''),
      (IfStmt, ''IfStmt''),
      (IncDecStmt, ''IncDecStmt''),
      (IndexExpr, ''IndexExpr''),
      (ParenExpr, ''ParenExpr''),
      (RangeStmt, ''RangeStmt''),
      (ReturnStmt, ''ReturnStmt'')]"

definition actions :: "string list" where
  "actions = keyed_array
     [(Nop, ''nop''),
      (ArrayLit, ''arraylit''),
      (Assign, ''=''),
      (AssignX, ''=''),
      (Add, ''+''),
      (And, ''&''),
      (Call, ''call''),
      (Dec, ''--''),
      (Equal, ''==''),
      (Greater, ''>''),
      (GetIndex, ''getindex''),
      (Inc, ''++''),
      (Lower, ''<''),
      (Println, ''println''),
      (Range_action, ''range''),
      (Return, ''return''),
      (Sub, ''-'')]"

text \<open>
  \<^verbatim>\<open>strconv.Itoa\<close> (Go standard library): the decimal digits of an integer, with a
  leading minus sign for a negative one.
\<close>

definition digit_char :: "nat \<Rightarrow> char" where
  "digit_char d = char_of (of_char (CHR ''0'') + d)"

fun nat_digits :: "nat \<Rightarrow> string" where
  "nat_digits n = (if n < 10 then [digit_char n] else nat_digits (n div 10) @ [digit_char (n mod 10)])"

declare nat_digits.simps [simp del]

definition Itoa :: "int \<Rightarrow> string" where
  "Itoa i = (if i < 0 then CHR ''-'' # nat_digits (nat (- i)) else nat_digits (nat i))"

text \<open>
  Reading an array at an integer index: Go checks the bounds and panics outside them.
\<close>

definition array_index :: "'a list \<Rightarrow> int \<Rightarrow> panic + 'a" where
  "array_index xs i = (if 0 \<le> i \<and> i < int (length xs) then Inr (xs ! nat i) else Inl IndexOutOfRange)"

text \<open>
  \<^verbatim>\<open>func (k Kind) String() string\<close>. The guard admits \<open>k = len(kinds)\<close>, and the read
  \<^verbatim>\<open>kinds[k]\<close> that follows is bounds-checked.
\<close>

definition Kind_String :: "Kind \<Rightarrow> panic + string" where
  "Kind_String k =
     (case (if 0 \<le> k \<and> k \<le> int (length kinds) then array_index kinds k else Inr []) of
        Inl e \<Rightarrow> Inl e
      | Inr s \<Rightarrow> Inr (if s = [] then ''kind('' @ Itoa k @ '')'' else s))"

definition Action_String :: "Action \<Rightarrow> panic + string" where
  "Action_String a =
     (case (if 0 \<le> a \<and> a \<le> int (length actions) then array_index actions a else Inr []) of
        Inl e \<Rightarrow> Inl e
      | Inr s \<Rightarrow> Inr (if s = [] then ''action('' @ Itoa a @ '')'' else s))"

section \<open>The surface syntax tree\<close>

text \<open>
  The tree that \<^verbatim>\<open>go/parser\<close> returns and \<^verbatim>\<open>ast.Inspect\<close> walks (Go standard library).
  The constructors are the node types of \<^verbatim>\<open>go/ast\<close> that the type switch of \<^verbatim>\<open>Ast\<close>
  names, each with its node-valued fields in declaration order and with the other fields
  that \<^verbatim>\<open>Ast\<close> reads (\<^verbatim>\<open>Value\<close>, \<^verbatim>\<open>Op\<close>, \<^verbatim>\<open>Tok\<close>, \<^verbatim>\<open>Name\<close>); a field that may be
  \<^verbatim>\<open>nil\<close> is an option, a slice is a list. Positions, and the tokens and literal
  kinds that \<^verbatim>\<open>Ast\<close> never reads, are left out. \<open>ast_Other T cs\<close> stands for a node of any
  other type: \<open>T\<close> is what \<^verbatim>\<open>%T\<close> prints for it and \<open>cs\<close> are the nodes \<^verbatim>\<open>ast.Walk\<close> visits
  below it. Node-valued fields are not typed further (\<^verbatim>\<open>ast.Expr\<close>, \<^verbatim>\<open>ast.Stmt\<close>), so
  every tree of \<^verbatim>\<open>go/ast\<close> is a value of \<open>gonode\<close>.
\<close>

datatype token =
    token_ADD | token_SUB | token_MUL | token_QUO | token_REM
  | token_AND | token_OR | token_XOR | token_SHL | token_SHR | token_AND_NOT
  | token_LAND | token_LOR
  | token_EQL | token_LSS | token_GTR | token_NEQ | token_LEQ | token_GEQ
  | token_INC | token_DEC
  | token_BREAK | token_CONTINUE | token_GOTO | token_FALLTHROUGH

datatype gonode =
    ast_ArrayType "gonode option" gonode
  | ast_AssignStmt "gonode list" "gonode list"
  | ast_BasicLit string
  | ast_BinaryExpr gonode token gonode
  | ast_BlockStmt "gonode list"
  | ast_BranchStmt token "gonode option"
  | ast_CallExpr gonode "gonode list"
  | ast_CompositeLit "gonode option" "gonode list"
  | ast_ExprStmt gonode
  | ast_Field "gonode list" "gonode option" "gonode option"
  | ast_FieldList "gonode list"
  | ast_File gonode "gonode list"
  | ast_ForStmt "gonode option" "gonode option" "gonode option" gonode
  | ast_FuncDecl "gonode option" string gonode "gonode option"
  | ast_FuncType "gonode option" "gonode option"
  | ast_Ident string
  | ast_IfStmt "gonode option" gonode gonode "gonode option"
  | ast_IncDecStmt gonode token
  | ast_IndexExpr gonode gonode
  | ast_ParenExpr gonode
  | ast_RangeStmt "gonode option" "gonode option" gonode gonode
  | ast_ReturnStmt "gonode list"
  | ast_Other string "gonode list"

text \<open>
  The nodes \<^verbatim>\<open>ast.Walk\<close> visits below a node, in its order: the non-nil node fields in
  declaration order. (\<^verbatim>\<open>Ast\<close> parses with mode 0, so the tree holds no comment groups.)
  The name of a function declaration is an \<^verbatim>\<open>*ast.Ident\<close> of its own.
\<close>

definition non_nil :: "'a option \<Rightarrow> 'a list" where
  "non_nil x = (case x of None \<Rightarrow> [] | Some n \<Rightarrow> [n])"

fun children :: "gonode \<Rightarrow> gonode list" where
  "children (ast_ArrayType Len Elt) = non_nil Len @ [Elt]"
| "children (ast_AssignStmt Lhs Rhs) = Lhs @ Rhs"
| "children (ast_BasicLit Value) = []"
| "children (ast_BinaryExpr X Op Y) = [X, Y]"
| "children (ast_BlockStmt List) = List"
| "children (ast_BranchStmt Tok Label) = non_nil Label"
| "children (ast_CallExpr Fun Args) = Fun # Args"
| "children (ast_CompositeLit Type Elts) = non_nil Type @ Elts"
| "children (ast_ExprStmt X) = [X]"
| "children (ast_Field Names Type Tag) = Names @ non_nil Type @ non_nil Tag"
| "children (ast_FieldList List) = List"
| "children (ast_File Name Decls) = Name # Decls"
| "children (ast_ForStmt Init Cond Post Body) =
     non_nil Init @ non_nil Cond @ non_nil Post @ [Body]"
| "children (ast_FuncDecl Recv Name Type Body) =
     non_nil Recv @ [ast_Ident Name, Type] @ non_nil Body"
| "children (ast_FuncType Params Results) = non_nil Params @ non_nil Results"
| "children (ast_Ident Name) = []"
| "children (ast_IfStmt Init Cond Body Else) = non_nil Init @ [Cond, Body] @ non_nil Else"
| "children (ast_IncDecStmt X Tok) = [X]"
| "children (ast_IndexExpr X Index) = [X, Index]"
| "children (ast_ParenExpr X) = [X]"
| "children (ast_RangeStmt Key Value X Body) = non_nil Key @ non_nil Value @ [X, Body]"
| "children (ast_ReturnStmt Results) = Results"
| "children (ast_Other T cs) = cs"

section \<open>Integer literals: \<^verbatim>\<open>strconv.ParseInt\<close>\<close>

text \<open>
  \<^verbatim>\<open>strconv.ParseInt(s, 0, 0)\<close> of the Go standard library, as \<^verbatim>\<open>Ast\<close> calls it: base 0
  (the base is read from the prefix, and underscores may separate digits) and bit size 0
  (the result must fit \<^verbatim>\<open>int\<close>, of \<open>IntSize\<close> bits). It is not part of this repository;
  the definitions follow \<^verbatim>\<open>strconv/atoi.go\<close>. Unsigned 64-bit values are natural numbers,
  and each test of the source for an overflow is written out.
\<close>

datatype num_error = ErrSyntax | ErrRange

definition IntSize :: nat where
  "IntSize = 64"

definition maxUint64 :: nat where
  "maxUint64 = 2 ^ 64 - 1"

text \<open>\<^verbatim>\<open>lower(c) = c | ('x' - 'X')\<close>: the bit of value 32 is set.\<close>

definition lower :: "char \<Rightarrow> char" where
  "lower c = (let n = (of_char c :: nat) in if (n div 32) mod 2 = 0 then char_of (n + 32) else c)"

definition char_le :: "char \<Rightarrow> char \<Rightarrow> bool" where
  "char_le a b = ((of_char a :: nat) \<le> of_char b)"

definition char_diff :: "char \<Rightarrow> char \<Rightarrow> nat" where
  "char_diff a b = (of_char a :: nat) - of_char b"

text \<open>
  The value of a digit: the cases of the switch in the loop of \<^verbatim>\<open>ParseUint\<close> that
  compute \<open>d\<close>, with \<open>None\<close> for its default case (a syntax error).
\<close>

definition byte_digit :: "char \<Rightarrow> nat option" where
  "byte_digit c =
     (if char_le (CHR ''0'') c \<and> char_le c (CHR ''9'') then Some (char_diff c (CHR ''0''))
      else if char_le (CHR ''a'') (lower c) \<and> char_le (lower c) (CHR ''z'')
      then Some (char_diff (lower c) (CHR ''a'') + 10)
      else None)"

text \<open>
  The loop of \<^verbatim>\<open>ParseUint\<close> over the bytes that follow the prefix: \<open>n\<close> is the value read
  so far and \<open>underscores\<close> tells whether an underscore was skipped. The bit size is
  \<open>IntSize = 64\<close>, so \<^verbatim>\<open>maxVal\<close> is \<open>maxUint64\<close>, and the sum \<open>n * base + d\<close> wraps around
  exactly when it exceeds \<open>maxUint64\<close>.
\<close>

fun ParseUint_loop :: "nat \<Rightarrow> string \<Rightarrow> nat \<Rightarrow> bool \<Rightarrow> num_error + (nat \<times> bool)" where
  "ParseUint_loop base [] n underscores = Inr (n, underscores)"
| "ParseUint_loop base (c # cs) n underscores =
     (if c = CHR ''_'' then ParseUint_loop base cs n True
      else case byte_digit c of
        None \<Rightarrow> Inl ErrSyntax
      | Some d \<Rightarrow>
          if d \<ge> base then Inl ErrSyntax
          else if n \<ge> maxUint64 div base + 1 then Inl ErrRange
          else if n * base + d > maxUint64 then Inl ErrRange
          else ParseUint_loop base cs (n * base + d) underscores)"

text \<open>
  \<^verbatim>\<open>underscoreOK\<close>: an underscore stands only between digits, or between a base prefix
  and a digit. \<open>saw\<close> is the class of the last byte seen.
\<close>

datatype saw = saw_begin | saw_digit | saw_underscore | saw_other

fun underscoreOK_loop :: "bool \<Rightarrow> string \<Rightarrow> saw \<Rightarrow> bool" where
  "underscoreOK_loop hex [] saw = (saw \<noteq> saw_underscore)"
| "underscoreOK_loop hex (c # cs) saw =
     (if (char_le (CHR ''0'') c \<and> char_le c (CHR ''9''))
         \<or> (hex \<and> char_le (CHR ''a'') (lower c) \<and> char_le (lower c) (CHR ''f''))
      then underscoreOK_loop hex cs saw_digit
      else if c = CHR ''_''
      then (if saw \<noteq> saw_digit then False else underscoreOK_loop hex cs saw_underscore)
      else if saw = saw_underscore then False
      else underscoreOK_loop hex cs saw_other)"

definition underscoreOK :: "string \<Rightarrow> bool" where
  "underscoreOK s0 =
     (let s = (if length s0 \<ge> 1 \<and> (hd s0 = CHR ''-'' \<or> hd s0 = CHR ''+'') then tl s0 else s0)
      in if length s \<ge> 2 \<and> hd s = CHR ''0''
            \<and> (lower (s ! 1) = CHR ''b'' \<or> lower (s ! 1) = CHR ''o'' \<or> lower (s ! 1) = CHR ''x'')
         then underscoreOK_loop (lower (s ! 1) = CHR ''x'') (drop 2 s) saw_digit
         else underscoreOK_loop False s saw_begin)"

text \<open>
  The switch of \<^verbatim>\<open>ParseUint\<close> for base 0, on a string that is not empty: the base that
  the prefix selects, and the bytes that follow the prefix.
\<close>

definition base_prefix :: "string \<Rightarrow> nat \<times> string" where
  "base_prefix s =
     (if hd s = CHR ''0'' then
        (if length s \<ge> 3 \<and> lower (s ! 1) = CHR ''b'' then (2, drop 2 s)
         else if length s \<ge> 3 \<and> lower (s ! 1) = CHR ''o'' then (8, drop 2 s)
         else if length s \<ge> 3 \<and> lower (s ! 1) = CHR ''x'' then (16, drop 2 s)
         else (8, drop 1 s))
      else (10, s))"

text \<open>
  \<^verbatim>\<open>ParseUint(s, 0, 0)\<close>. With a range error the source also returns the largest value,
  \<open>maxUint64\<close>; \<open>ParseInt\<close> below reads it.
\<close>

definition ParseUint :: "string \<Rightarrow> num_error + nat" where
  "ParseUint s =
     (if s = [] then Inl ErrSyntax
      else
        let (base, digits) = base_prefix s
        in case ParseUint_loop base digits 0 False of
             Inl e \<Rightarrow> Inl e
           | Inr (n, underscores) \<Rightarrow>
               if underscores \<and> \<not> underscoreOK s then Inl ErrSyntax else Inr n)"

definition ParseInt :: "string \<Rightarrow> num_error + int" where
  "ParseInt s0 =
     (if s0 = [] then Inl ErrSyntax
      else
        let neg = (hd s0 = CHR ''-'');
            s = (if hd s0 = CHR ''+'' \<or> hd s0 = CHR ''-'' then tl s0 else s0)
        in case ParseUint s of
             Inl ErrSyntax \<Rightarrow> Inl ErrSyntax
           | r \<Rightarrow>
               let un = (case r of Inr n \<Rightarrow> n | Inl _ \<Rightarrow> maxUint64);
                   cutoff = 2 ^ (IntSize - 1)
               in if \<not> neg \<and> un \<ge> cutoff then Inl ErrRange
                  else if neg \<and> un > cutoff then Inl ErrRange
                  else Inr (if neg then - int un else int un))"

section \<open>The node graph\<close>

text \<open>
  \<^verbatim>\<open>*Node\<close> is an address: the position of the node in the list of all nodes allocated
  so far (\<open>heap\<close>), in allocation order. \<open>val\<close> is an \<^verbatim>\<open>interface{}\<close>: \<^verbatim>\<open>addChild\<close>
  stores the address of a fresh empty interface in it (\<open>EmptyCell\<close>), and a literal
  overwrites it with an \<^verbatim>\<open>int\<close> or a \<^verbatim>\<open>string\<close>. The field \<^verbatim>\<open>run\<close> is
  \<^verbatim>\<open>builtin[action]\<close>, a function of \<open>action\<close>, and is not kept.
\<close>

datatype cell = EmptyCell | IntVal int | StrVal string

record Node =
  Child :: "nat list"
  Start :: nat
  anc :: "nat option"
  index :: int
  kind :: Kind
  action :: Action
  ident :: string
  val :: cell

text \<open>
  The variables of \<^verbatim>\<open>Ast\<close> that its closure and \<^verbatim>\<open>addChild\<close> write: \<^verbatim>\<open>def\<close>,
  \<^verbatim>\<open>index\<close> (here \<open>index_var\<close>), \<^verbatim>\<open>root\<close> and the stack \<^verbatim>\<open>st\<close>, with the heap and the
  lines printed on standard output. \<^verbatim>\<open>anc\<close> is assigned at the start of every call of the
  closure and read nowhere else, so it is a local value of \<open>visit\<close>.
\<close>

record lowering =
  heap :: "Node list"
  root :: "nat option"
  index_var :: int
  st :: "nat list"
  def_map :: "string \<rightharpoonup> nat"
  out :: "string list"

text \<open>Go's \<^verbatim>\<open>int\<close> arithmetic wraps around at \<open>IntSize\<close> bits.\<close>

definition int_wrap :: "int \<Rightarrow> int" where
  "int_wrap i = (i + 2 ^ (IntSize - 1)) mod 2 ^ IntSize - 2 ^ (IntSize - 1)"

text \<open>
  \<^verbatim>\<open>addChild(root, anc, index, kind, action, anode)\<close>: \<open>root\<close> and \<open>index\<close> point to the
  variables of \<^verbatim>\<open>Ast\<close>, so the state is passed and returned, with the address of the new
  node. \<open>anc\<close> is an address handed out earlier, hence below \<open>length (heap s)\<close>.
\<close>

definition addChild :: "lowering \<Rightarrow> nat option \<Rightarrow> Kind \<Rightarrow> Action \<Rightarrow> lowering \<times> nat" where
  "addChild s anc_arg kind_arg action_arg =
     (let i = int_wrap (index_var s + 1);
          n = length (heap s);
          h = heap s @ [\<lparr>Child = [], Start = n, anc = anc_arg, index = i, kind = kind_arg,
                         action = action_arg, ident = [], val = EmptyCell\<rparr>]
      in (case anc_arg of
            None \<Rightarrow> (s\<lparr>heap := h, root := Some n, index_var := i\<rparr>, n)
          | Some a \<Rightarrow>
              (s\<lparr>heap := h[a := (h ! a)\<lparr>Child := Child (h ! a) @ [n]\<rparr>], index_var := i\<rparr>, n)))"

subsection \<open>The stack of ancestors\<close>

definition nodestack_push :: "nat list \<Rightarrow> nat \<Rightarrow> nat list" where
  "nodestack_push s v = s @ [v]"

definition nodestack_pop :: "nat list \<Rightarrow> panic + (nat list \<times> nat)" where
  "nodestack_pop s = (if s = [] then Inl IndexOutOfRange else Inr (butlast s, last s))"

definition nodestack_top :: "nat list \<Rightarrow> nat option" where
  "nodestack_top s = (if length s > 0 then Some (last s) else None)"

section \<open>Lowering\<close>

text \<open>
  \<^verbatim>\<open>st.push(n)\<close> on the stack of the state, and a write through a node pointer
  (\<^verbatim>\<open>n.ident = ...\<close>, \<^verbatim>\<open>n.val = ...\<close>).
\<close>

definition push :: "lowering \<Rightarrow> nat \<Rightarrow> lowering" where
  "push s n = s\<lparr>st := nodestack_push (st s) n\<rparr>"

definition update_node :: "nat \<Rightarrow> (Node \<Rightarrow> Node) \<Rightarrow> lowering \<Rightarrow> lowering" where
  "update_node n f s = s\<lparr>heap := (heap s)[n := f (heap s ! n)]\<rparr>"

text \<open>
  The closure that \<^verbatim>\<open>Ast\<close> hands to \<^verbatim>\<open>ast.Inspect\<close>: \<open>None\<close> is the call with
  \<^verbatim>\<open>nil\<close> that ends the visit of a node. Every call starts with \<^verbatim>\<open>anc = st.top()\<close>.
  A \<^verbatim>\<open>var kind Kind\<close> or \<^verbatim>\<open>var action Action\<close> that no case of a switch assigns
  keeps the zero value \<open>0\<close>. The closure always returns \<^verbatim>\<open>true\<close>.
\<close>

fun visit :: "gonode option \<Rightarrow> lowering \<Rightarrow> panic + lowering" where
  "visit None s =
     (case nodestack_pop (st s) of
        Inl e \<Rightarrow> Inl e
      | Inr (st', a) \<Rightarrow> Inr (s\<lparr>st := st'\<rparr>))"
| "visit (Some (ast_ArrayType Len Elt)) s =
     (let (s1, n) = addChild s (nodestack_top (st s)) ArrayType Nop in Inr (push s1 n))"
| "visit (Some (ast_AssignStmt Lhs Rhs)) s =
     (let a = (if length Lhs > 1 \<and> length Rhs = 1 then AssignX else Assign);
          (s1, n) = addChild s (nodestack_top (st s)) AssignStmt a
      in Inr (push s1 n))"
| "visit (Some (ast_BasicLit Value)) s =
     (let (s1, n) = addChild s (nodestack_top (st s)) BasicLit Nop;
          s2 = update_node n (\<lambda>x. x\<lparr>ident := Value\<rparr>) s1;
          s3 = (case ParseInt Value of
                  Inr v \<Rightarrow> update_node n (\<lambda>x. x\<lparr>val := IntVal v\<rparr>) s2
                | Inl err \<Rightarrow> update_node n (\<lambda>x. x\<lparr>val := StrVal Value\<rparr>) s2)
      in Inr (push s3 n))"
| "visit (Some (ast_BinaryExpr X Op Y)) s =
     (let a = (case Op of
                 token_ADD \<Rightarrow> Add
               | token_AND \<Rightarrow> And
               | token_EQL \<Rightarrow> Equal
               | token_GTR \<Rightarrow> Greater
               | token_LSS \<Rightarrow> Lower
               | token_SUB \<Rightarrow> Sub
               | _ \<Rightarrow> 0);
          (s1, n) = addChild s (nodestack_top (st s)) BinaryExpr a
      in Inr (push s1 n))"
| "visit (Some (ast_BlockStmt List)) s =
     (let (s1, n) = addChild s (nodestack_top (st s)) BlockStmt Nop in Inr (push s1 n))"
| "visit (Some (ast_BranchStmt Tok Label)) s =
     (let k = (case Tok of
                 token_BREAK \<Rightarrow> Break
               | token_CONTINUE \<Rightarrow> Continue
               | _ \<Rightarrow> 0);
          (s1, n) = addChild s (nodestack_top (st s)) k Nop
      in Inr (push s1 n))"
| "visit (Some (ast_CallExpr Fun Args)) s =
     (let (s1, n) = addChild s (nodestack_top (st s)) CallExpr Call in Inr (push s1 n))"
| "visit (Some (ast_CompositeLit Type Elts)) s =
     (let (s1, n) = addChild s (nodestack_top (st s)) CompositeLit ArrayLit in Inr (push s1 n))"
| "visit (Some (ast_ExprStmt X)) s =
     (let (s1, n) = addChild s (nodestack_top (st s)) ExprStmt Nop in Inr (push s1 n))"
| "visit (Some (ast_Field Names Type Tag)) s =
     (let (s1, n) = addChild s (nodestack_top (st s)) Field_kind Nop in Inr (push s1 n))"
| "visit (Some (ast_FieldList List)) s =
     (let (s1, n) = addChild s (nodestack_top (st s)) FieldList Nop in Inr (push s1 n))"
| "visit (Some (ast_File Name Decls)) s =
     (let (s1, n) = addChild s (nodestack_top (st s)) File Nop in Inr (push s1 n))"
| "visit (Some (ast_ForStmt Init Cond Post Body)) s =
     (let k = (if Cond = None then For0
               else if Init = None \<and> Post = None then For1
               else if Init \<noteq> None \<and> Post = None then For2
               else if Init = None \<and> Post \<noteq> None then For3
               else For4);
          (s1, n) = addChild s (nodestack_top (st s)) k Nop
      in Inr (push s1 n))"
| "visit (Some (ast_FuncDecl Recv Name Type Body)) s =
     (let (s1, n) = addChild s (nodestack_top (st s)) FuncDecl Nop;
          s2 = s1\<lparr>def_map := (def_map s1)(Name \<mapsto> n)\<rparr>
      in Inr (push s2 n))"
| "visit (Some (ast_FuncType Params Results)) s =
     (let (s1, n) = addChild s (nodestack_top (st s)) FuncType Nop in Inr (push s1 n))"
| "visit (Some (ast_Ident Name)) s =
     (let (s1, n) = addChild s (nodestack_top (st s)) Ident Nop;
          s2 = update_node n (\<lambda>x. x\<lparr>ident := Name\<rparr>) s1
      in Inr (push s2 n))"
| "visit (Some (ast_IfStmt Init Cond Body Else)) s =
     (let k = (if Init = None \<and> Else = None then If0
               else if Init = None \<and> Else \<noteq> None then If1
               else if Else = None then If2
               else If3);
          (s1, n) = addChild s (nodestack_top (st s)) k Nop
      in Inr (push s1 n))"
| "visit (Some (ast_IncDecStmt X Tok)) s =
     (let a = (case Tok of
                 token_INC \<Rightarrow> Inc
               | token_DEC \<Rightarrow> Dec
               | _ \<Rightarrow> 0);
          (s1, n) = addChild s (nodestack_top (st s)) IncDecStmt a
      in Inr (push s1 n))"
| "visit (Some (ast_IndexExpr X Index)) s =
     (let (s1, n) = addChild s (nodestack_top (st s)) IndexExpr GetIndex in Inr (push s1 n))"
| "visit (Some (ast_ParenExpr X)) s =
     (let (s1, n) = addChild s (nodestack_top (st s)) ParenExpr Nop in Inr (push s1 n))"
| "visit (Some (ast_RangeStmt Key Value X Body)) s =
     (let (s1, n) = addChild s (nodestack_top (st s)) ForRangeStmt Nop;
          (s2, m) = addChild s1 (Some n) RangeStmt Range_action
      in Inr (push s2 m))"
| "visit (Some (ast_ReturnStmt Results)) s =
     (let (s1, n) = addChild s (nodestack_top (st s)) ReturnStmt Return in Inr (push s1 n))"
| "visit (Some (ast_Other T cs)) s =
     (let s0 = s\<lparr>out := out s @ [''Unknown kind for '' @ T @ [CHR 0x0A]]\<rparr>;
          (s1, n) = addChild s0 (nodestack_top (st s0)) Undef Nop
      in Inr (push s1 n))"

text \<open>
  \<^verbatim>\<open>ast.Inspect(node, f)\<close> (Go standard library): \<open>f(node)\<close>, then, as \<open>f\<close> returned
  \<^verbatim>\<open>true\<close>, the nodes below \<open>node\<close> in order, then \<open>f(nil)\<close>. A panic of the closure ends
  the walk.
\<close>

fun walk_list :: "('a \<Rightarrow> 's \<Rightarrow> panic + 's) \<Rightarrow> 'a list \<Rightarrow> 's \<Rightarrow> panic + 's" where
  "walk_list f [] s = Inr s"
| "walk_list f (x # xs) s = (case f x s of Inl e \<Rightarrow> Inl e | Inr s' \<Rightarrow> walk_list f xs s')"

lemma walk_list_cong [fundef_cong]:
  "xs = ys \<Longrightarrow> s = t \<Longrightarrow> (\<And>x u. x \<in> set ys \<Longrightarrow> f x u = g x u)
   \<Longrightarrow> walk_list f xs s = walk_list g ys t"
  by (induction ys arbitrary: xs s t) (auto split: sum.splits)

lemma size_list_member: "c \<in> set xs \<Longrightarrow> f c \<le> size_list f xs"
  by (induction xs) auto

lemma size_children: "c \<in> set (children n) \<Longrightarrow> size c < size n"
  by (cases n)
     (auto simp: non_nil_def less_Suc_eq_le split: option.splits
           dest!: size_list_member [where f = size])

function Inspect :: "gonode \<Rightarrow> lowering \<Rightarrow> panic + lowering" where
  "Inspect node s =
     (case visit (Some node) s of
        Inl e \<Rightarrow> Inl e
      | Inr s1 \<Rightarrow>
          (case walk_list Inspect (children node) s1 of
             Inl e \<Rightarrow> Inl e
           | Inr s2 \<Rightarrow> visit None s2))"
  by pat_completeness auto
termination
  by (relation "measure (\<lambda>(n, s). size n)") (auto simp: size_children)

declare Inspect.simps [simp del]

text \<open>
  \<^verbatim>\<open>Ast(src)\<close>. \<open>ParseFile\<close> stands for
  \<^verbatim>\<open>parser.ParseFile(fset, "sample.go", src, 0)\<close> of the Go standard library: it returns
  the tree of the file, or an error with its message. The result is the pair
  \<^verbatim>\<open>(root, def)\<close>, with the heap that the addresses point into.
\<close>

definition init_lowering :: lowering where
  "init_lowering = \<lparr>heap = [], root = None, index_var = 0, st = [], def_map = Map.empty, out = []\<rparr>"

definition Ast ::
  "(string \<Rightarrow> string + gonode) \<Rightarrow> string \<Rightarrow> panic + (Node list \<times> nat option \<times> (string \<rightharpoonup> nat))" where
  "Ast ParseFile src =
     (case ParseFile src of
        Inl err \<Rightarrow> Inl (ParsePanic err)
      | Inr f \<Rightarrow>
          (case Inspect f init_lowering of
             Inl e \<Rightarrow> Inl e
           | Inr s \<Rightarrow> Inr (heap s, root s, def_map s)))"

section \<open>What the lowering creates\<close>

text \<open>
  The functions of this section describe the result of the lowering; the lemmas below relate
  them to \<open>visit\<close>, \<open>Inspect\<close> and \<open>Ast\<close>.

  \<open>origins node\<close> lists, in the order of creation, where each node created for the tree
  \<open>node\<close> comes from: \<open>Some n\<close> for the node created at the visit of the surface node \<open>n\<close>,
  \<open>None\<close> for the node that the case of \<^verbatim>\<open>*ast.RangeStmt\<close> creates first, for which the
  surface tree has no node. The order is that of \<^verbatim>\<open>ast.Inspect\<close>: a node before the nodes
  below it.
\<close>

function origins :: "gonode \<Rightarrow> gonode option list" where
  "origins node =
     (case node of ast_RangeStmt Key Value X Body \<Rightarrow> [None, Some node] | _ \<Rightarrow> [Some node])
     @ concat (map origins (children node))"
  by pat_completeness auto
termination
  by (relation "measure size") (auto simp: size_children)

declare origins.simps [simp del]

fun kind_of :: "gonode \<Rightarrow> Kind" where
  "kind_of (ast_ArrayType Len Elt) = ArrayType"
| "kind_of (ast_AssignStmt Lhs Rhs) = AssignStmt"
| "kind_of (ast_BasicLit Value) = BasicLit"
| "kind_of (ast_BinaryExpr X Op Y) = BinaryExpr"
| "kind_of (ast_BlockStmt List) = BlockStmt"
| "kind_of (ast_BranchStmt Tok Label) =
     (if Tok = token_BREAK then Break else if Tok = token_CONTINUE then Continue else 0)"
| "kind_of (ast_CallExpr Fun Args) = CallExpr"
| "kind_of (ast_CompositeLit Type Elts) = CompositeLit"
| "kind_of (ast_ExprStmt X) = ExprStmt"
| "kind_of (ast_Field Names Type Tag) = Field_kind"
| "kind_of (ast_FieldList List) = FieldList"
| "kind_of (ast_File Name Decls) = File"
| "kind_of (ast_ForStmt Init Cond Post Body) =
     (if Cond = None then For0
      else if Init = None \<and> Post = None then For1
      else if Init \<noteq> None \<and> Post = None then For2
      else if Init = None \<and> Post \<noteq> None then For3
      else For4)"
| "kind_of (ast_FuncDecl Recv Name Type Body) = FuncDecl"
| "kind_of (ast_FuncType Params Results) = FuncType"
| "kind_of (ast_Ident Name) = Ident"
| "kind_of (ast_IfStmt Init Cond Body Else) =
     (if Init = None \<and> Else = None then If0
      else if Init = None \<and> Else \<noteq> None then If1
      else if Else = None then If2
      else If3)"
| "kind_of (ast_IncDecStmt X Tok) = IncDecStmt"
| "kind_of (ast_IndexExpr X Index) = IndexExpr"
| "kind_of (ast_ParenExpr X) = ParenExpr"
| "kind_of (ast_RangeStmt Key Value X Body) = RangeStmt"
| "kind_of (ast_ReturnStmt Results) = ReturnStmt"
| "kind_of (ast_Other T cs) = Undef"

fun action_of :: "gonode \<Rightarrow> Action" where
  "action_of (ast_AssignStmt Lhs Rhs) = (if length Lhs > 1 \<and> length Rhs = 1 then AssignX else Assign)"
| "action_of (ast_BinaryExpr X Op Y) =
     (if Op = token_ADD then Add else if Op = token_AND then And
      else if Op = token_EQL then Equal else if Op = token_GTR then Greater
      else if Op = token_LSS then Lower else if Op = token_SUB then Sub else 0)"
| "action_of (ast_CallExpr Fun Args) = Call"
| "action_of (ast_CompositeLit Type Elts) = ArrayLit"
| "action_of (ast_IncDecStmt X Tok) =
     (if Tok = token_INC then Inc else if Tok = token_DEC then Dec else 0)"
| "action_of (ast_IndexExpr X Index) = GetIndex"
| "action_of (ast_RangeStmt Key Value X Body) = Range_action"
| "action_of (ast_ReturnStmt Results) = Return"
| "action_of node = Nop"

fun ident_of :: "gonode \<Rightarrow> string" where
  "ident_of (ast_BasicLit Value) = Value"
| "ident_of (ast_Ident Name) = Name"
| "ident_of node = []"

fun val_of :: "gonode \<Rightarrow> cell" where
  "val_of (ast_BasicLit Value) = (case ParseInt Value of Inr v \<Rightarrow> IntVal v | Inl err \<Rightarrow> StrVal Value)"
| "val_of node = EmptyCell"

definition shape :: "Node \<Rightarrow> Kind \<times> Action \<times> string \<times> cell" where
  "shape n = (kind n, action n, ident n, val n)"

fun lowered :: "gonode option \<Rightarrow> Kind \<times> Action \<times> string \<times> cell" where
  "lowered None = (ForRangeStmt, Nop, [], EmptyCell)"
| "lowered (Some node) = (kind_of node, action_of node, ident_of node, val_of node)"

definition origins1 :: "gonode \<Rightarrow> gonode option list" where
  "origins1 node = (case node of ast_RangeStmt Key Value X Body \<Rightarrow> [None, Some node] | _ \<Rightarrow> [Some node])"

lemma map_shape_update_Child:
  "map shape (h[a := (h ! a)\<lparr>Child := c\<rparr>]) = map shape h"
  by (cases "a < length h") (simp_all add: map_update shape_def list_eq_iff_nth_eq nth_list_update)

lemma addChild_snd [simp]: "snd (addChild s anc_arg k a) = length (heap s)"
  by (simp add: addChild_def Let_def split: option.splits)

lemma addChild_st [simp]: "st (fst (addChild s anc_arg k a)) = st s"
  by (simp add: addChild_def Let_def split: option.splits)

lemma addChild_length [simp]: "length (heap (fst (addChild s anc_arg k a))) = Suc (length (heap s))"
  by (simp add: addChild_def Let_def split: option.splits)

lemma addChild_shape [simp]:
  "map shape (heap (fst (addChild s anc_arg k a))) = map shape (heap s) @ [(k, a, [], EmptyCell)]"
  by (simp add: addChild_def Let_def map_shape_update_Child split: option.splits) (simp add: shape_def)


lemma addChild_new_shape:
  "shape (heap (fst (addChild s anc_arg k a)) ! length (heap s)) = (k, a, [], EmptyCell)"
proof -
  have "length (heap s) < length (heap (fst (addChild s anc_arg k a)))"
    by simp
  from nth_map [OF this, of shape] show ?thesis
    by (simp add: nth_append)
qed

lemma push_st [simp]: "st (push s n) = st s @ [n]"
  by (simp add: push_def nodestack_push_def)

lemma push_heap [simp]: "heap (push s n) = heap s"
  by (simp add: push_def)

lemma update_node_st [simp]: "st (update_node n f s) = st s"
  by (simp add: update_node_def)

lemma update_node_length [simp]: "length (heap (update_node n f s)) = length (heap s)"
  by (simp add: update_node_def)

lemma update_node_last_shape:
  assumes "map shape (heap s) = xs @ [x]" and "n = length xs"
  shows "map shape (heap (update_node n f s)) = xs @ [shape (f (heap s ! n))]"
proof -
  have "length (heap s) = Suc (length xs)"
    using assms(1) by (metis length_append_singleton length_map)
  then show ?thesis
    using assms by (simp add: update_node_def map_update)
qed

lemma update_node_last_nth:
  assumes "length (heap s) = Suc n"
  shows "heap (update_node n f s) ! n = f (heap s ! n)"
  using assms by (simp add: update_node_def)

lemma shape_ident_update: "shape (x\<lparr>ident := v\<rparr>) = (kind x, action x, v, val x)"
  by (simp add: shape_def)

lemma shape_val_update: "shape (x\<lparr>val := v\<rparr>) = (kind x, action x, ident x, v)"
  by (simp add: shape_def)

lemma shape_eqD: "shape x = (k, a, i, c) \<Longrightarrow> kind x = k \<and> action x = a \<and> ident x = i \<and> val x = c"
  by (simp add: shape_def)

lemma visit_Some_shape:
  "\<exists>s1. visit (Some node) s = Inr s1
      \<and> st s1 = st s @ [length (heap s) + length (origins1 node) - 1]
      \<and> map shape (heap s1) = map shape (heap s) @ map lowered (origins1 node)"
proof (cases node)
  case (ast_BasicLit Value)
  define s1 where "s1 = fst (addChild s (nodestack_top (st s)) BasicLit Nop)"
  define s2 where "s2 = update_node (length (heap s)) (\<lambda>x. x\<lparr>ident := Value\<rparr>) s1"
  define c where "c = (case ParseInt Value of Inr v \<Rightarrow> IntVal v | Inl err \<Rightarrow> StrVal Value)"
  define s3 where "s3 = update_node (length (heap s)) (\<lambda>x. x\<lparr>val := c\<rparr>) s2"
  have v: "visit (Some node) s = Inr (push s3 (length (heap s)))"
    by (simp add: ast_BasicLit split_def Let_def s1_def s2_def s3_def c_def split: sum.splits)
  have new: "kind (heap s1 ! length (heap s)) = BasicLit" "action (heap s1 ! length (heap s)) = Nop"
    using shape_eqD [OF addChild_new_shape [of s "nodestack_top (st s)" BasicLit Nop]]
    by (simp_all add: s1_def)
  have h1: "map shape (heap s1) = map shape (heap s) @ [(BasicLit, Nop, [], EmptyCell)]"
    by (simp add: s1_def)
  have l1: "length (heap s1) = Suc (length (heap s))"
    by (simp add: s1_def)
  have h2: "map shape (heap s2) = map shape (heap s) @ [(BasicLit, Nop, Value, EmptyCell)]"
    using update_node_last_shape [OF h1, of "length (heap s)" "\<lambda>x. x\<lparr>ident := Value\<rparr>"]
      shape_eqD [OF addChild_new_shape [of s "nodestack_top (st s)" BasicLit Nop]]
    by (simp add: s2_def s1_def shape_ident_update)
  have n2: "shape (heap s2 ! length (heap s)) = (BasicLit, Nop, Value, EmptyCell)"
  proof -
    have "length (heap s) < length (heap s2)"
      by (simp add: s2_def l1)
    from nth_map [OF this, of shape] show ?thesis
      by (simp add: h2 nth_append)
  qed
  have h3: "map shape (heap s3) = map shape (heap s) @ [(BasicLit, Nop, Value, c)]"
    using update_node_last_shape [OF h2, of "length (heap s)" "\<lambda>x. x\<lparr>val := c\<rparr>"]
      shape_eqD [OF n2]
    by (simp add: s3_def shape_val_update)
  show ?thesis
    using v h3 by (simp add: ast_BasicLit origins1_def c_def s3_def s2_def s1_def)
next
  case (ast_Ident Name)
  define s1 where "s1 = fst (addChild s (nodestack_top (st s)) Ident Nop)"
  define s2 where "s2 = update_node (length (heap s)) (\<lambda>x. x\<lparr>ident := Name\<rparr>) s1"
  have v: "visit (Some node) s = Inr (push s2 (length (heap s)))"
    by (simp add: ast_Ident split_def Let_def s1_def s2_def)
  have h1: "map shape (heap s1) = map shape (heap s) @ [(Ident, Nop, [], EmptyCell)]"
    by (simp add: s1_def)
  have h2: "map shape (heap s2) = map shape (heap s) @ [(Ident, Nop, Name, EmptyCell)]"
    using update_node_last_shape [OF h1, of "length (heap s)" "\<lambda>x. x\<lparr>ident := Name\<rparr>"]
      shape_eqD [OF addChild_new_shape [of s "nodestack_top (st s)" Ident Nop]]
    by (simp add: s2_def s1_def shape_ident_update)
  show ?thesis
    using v h2 by (simp add: ast_Ident origins1_def s2_def s1_def)
qed (simp_all add: split_def Let_def origins1_def split: token.splits)


lemma origins_unfold: "origins node = origins1 node @ concat (map origins (children node))"
  by (subst origins.simps) (simp add: origins1_def)

lemma visit_None_nonempty:
  "st s = xs @ [a] \<Longrightarrow> visit None s = Inr (s\<lparr>st := xs\<rparr>)"
  by (simp add: nodestack_pop_def)

lemma walk_list_shape:
  assumes "\<And>c s. c \<in> set cs \<Longrightarrow>
     \<exists>s'. f c s = Inr s' \<and> st s' = st s
        \<and> map shape (heap s') = map shape (heap s) @ map lowered (origins c)"
  shows "\<exists>s'. walk_list f cs s = Inr s' \<and> st s' = st s
        \<and> map shape (heap s') = map shape (heap s) @ map lowered (concat (map origins cs))"
  using assms
proof (induction cs arbitrary: s)
  case Nil
  then show ?case by simp
next
  case (Cons c cs)
  from Cons.prems [of c s] obtain s1 where
    s1: "f c s = Inr s1" "st s1 = st s"
        "map shape (heap s1) = map shape (heap s) @ map lowered (origins c)"
    by auto
  from Cons.IH [of s1] Cons.prems obtain s2 where
    s2: "walk_list f cs s1 = Inr s2" "st s2 = st s1"
        "map shape (heap s2) = map shape (heap s1) @ map lowered (concat (map origins cs))"
    by auto
  show ?case
    using s1 s2 by simp
qed

lemma Inspect_shape:
  "\<exists>s'. Inspect node s = Inr s' \<and> st s' = st s
      \<and> map shape (heap s') = map shape (heap s) @ map lowered (origins node)"
proof (induction node s rule: Inspect.induct)
  case (1 node s)
  obtain s1 where
    s1: "visit (Some node) s = Inr s1"
        "st s1 = st s @ [length (heap s) + length (origins1 node) - 1]"
        "map shape (heap s1) = map shape (heap s) @ map lowered (origins1 node)"
    using visit_Some_shape [of node s] by auto
  have "\<exists>s2. walk_list Inspect (children node) s1 = Inr s2 \<and> st s2 = st s1
        \<and> map shape (heap s2) = map shape (heap s1) @ map lowered (concat (map origins (children node)))"
    by (rule walk_list_shape) (use "1.IH" [OF s1(1)] in auto)
  then obtain s2 where
    s2: "walk_list Inspect (children node) s1 = Inr s2" "st s2 = st s1"
        "map shape (heap s2) = map shape (heap s1) @ map lowered (concat (map origins (children node)))"
    by auto
  have "visit None s2 = Inr (s2\<lparr>st := st s\<rparr>)"
    using s2(2) s1(2) by (intro visit_None_nonempty) simp
  then show ?case
    using s1 s2 by (subst Inspect.simps) (simp add: origins_unfold [of node])
qed

lemma walk_list_preserves:
  assumes "\<And>c s s'. c \<in> set cs \<Longrightarrow> P s \<Longrightarrow> f c s = Inr s' \<Longrightarrow> P s'"
    and "P s" and "walk_list f cs s = Inr s'"
  shows "P s'"
  using assms
proof (induction cs arbitrary: s)
  case Nil
  then show ?case by simp
next
  case (Cons c cs)
  from Cons.prems(3) obtain s1 where s1: "f c s = Inr s1" "walk_list f cs s1 = Inr s'"
    by (auto split: sum.splits)
  have "P s1" using Cons.prems(1) [of c s s1] Cons.prems(2) s1(1) by simp
  then show ?case
    using Cons.IH [of s1] Cons.prems(1) s1(2) by auto
qed

lemma Inspect_preserves:
  assumes step: "\<And>x s s1. P s \<Longrightarrow> visit x s = Inr s1 \<Longrightarrow> P s1"
    and "P s" and "Inspect node s = Inr s'"
  shows "P s'"
  using assms(2,3)
proof (induction node s arbitrary: s' rule: Inspect.induct)
  case (1 node s)
  from "1.prems"(2) obtain s1 s2 where
    s: "visit (Some node) s = Inr s1" "walk_list Inspect (children node) s1 = Inr s2"
       "visit None s2 = Inr s'"
    by (subst (asm) Inspect.simps) (auto split: sum.splits)
  have "P s1" using step [OF "1.prems"(1) s(1)] .
  have "P s2"
    by (rule walk_list_preserves [where P = P, OF _ \<open>P s1\<close> s(2)]) (use "1.IH" [OF s(1)] in blast)
  then show ?case using step [OF _ s(3)] by simp
qed


definition attach :: "nat option \<Rightarrow> nat \<Rightarrow> Node list \<Rightarrow> Node list" where
  "attach a n h = (case a of None \<Rightarrow> h | Some q \<Rightarrow> h[q := (h ! q)\<lparr>Child := Child (h ! q) @ [n]\<rparr>])"

lemma length_attach [simp]: "length (attach a n h) = length h"
  by (simp add: attach_def split: option.splits)

lemma attach_nth:
  "i < length h \<Longrightarrow>
   attach a n h ! i = (if a = Some i then (h ! i)\<lparr>Child := Child (h ! i) @ [n]\<rparr> else h ! i)"
  by (auto simp: attach_def nth_list_update split: option.splits)

definition stack_valid :: "lowering \<Rightarrow> bool" where
  "stack_valid s = (\<forall>a \<in> set (st s). a < length (heap s))"

lemma top_valid:
  "stack_valid s \<Longrightarrow> nodestack_top (st s) = Some q \<Longrightarrow> q < length (heap s)"
  by (auto simp: stack_valid_def nodestack_top_def split: if_splits)

lemma top_in_stack: "nodestack_top xs = Some q \<Longrightarrow> q \<in> set xs"
  by (auto simp: nodestack_top_def split: if_splits)

lemma addChild_eq:
  assumes "\<And>q. anc_arg = Some q \<Longrightarrow> q < length (heap s)"
  shows "addChild s anc_arg k a =
    (s\<lparr>heap := attach anc_arg (length (heap s)) (heap s) @
           [\<lparr>Child = [], Start = length (heap s), anc = anc_arg,
             index = int_wrap (index_var s + 1), kind = k, action = a, ident = [],
             val = EmptyCell\<rparr>],
        root := (if anc_arg = None then Some (length (heap s)) else root s),
        index_var := int_wrap (index_var s + 1)\<rparr>,
     length (heap s))"
proof (cases anc_arg)
  case None
  then show ?thesis by (simp add: addChild_def attach_def Let_def)
next
  case (Some q)
  with assms have "q < length (heap s)" by simp
  then show ?thesis
    using Some by (simp add: addChild_def attach_def Let_def nth_append list_update_append)
qed

lemma update_snoc: "length xs = n \<Longrightarrow> (xs @ [x])[n := y] = xs @ [y]"
  by auto

lemma nth_snoc: "length xs = n \<Longrightarrow> (xs @ [x]) ! n = x"
  by auto

lemma attach_Some_snoc:
  "length xs = n \<Longrightarrow> attach (Some n) m (xs @ [x]) = xs @ [x\<lparr>Child := Child x @ [m]\<rparr>]"
  by (auto simp: attach_def)

definition fresh :: "gonode \<Rightarrow> lowering \<Rightarrow> Node list" where
  "fresh node s =
     (let n = length (heap s); a = nodestack_top (st s); i = int_wrap (index_var s + 1) in
      case node of
        ast_RangeStmt Key Value X Body \<Rightarrow>
          [\<lparr>Child = [Suc n], Start = n, anc = a, index = i, kind = ForRangeStmt, action = Nop,
            ident = [], val = EmptyCell\<rparr>,
           \<lparr>Child = [], Start = Suc n, anc = Some n, index = int_wrap (i + 1), kind = RangeStmt,
            action = Range_action, ident = [], val = EmptyCell\<rparr>]
      | _ \<Rightarrow>
          [\<lparr>Child = [], Start = n, anc = a, index = i, kind = kind_of node,
            action = action_of node, ident = ident_of node, val = val_of node\<rparr>])"

lemma visit_Some_heap:
  assumes "stack_valid s"
  shows "\<exists>s1. visit (Some node) s = Inr s1
      \<and> st s1 = st s @ [length (heap s) + length (origins1 node) - 1]
      \<and> index_var s1 = index (last (fresh node s))
      \<and> heap s1 = attach (nodestack_top (st s)) (length (heap s)) (heap s) @ fresh node s"
proof -
  have a: "\<And>q. nodestack_top (st s) = Some q \<Longrightarrow> q < length (heap s)"
    using assms by (rule top_valid)
  show ?thesis
  proof (cases node)
    case (ast_RangeStmt Key Value X Body)
    define n where "n = length (heap s)"
    define s1 where "s1 = s\<lparr>heap := attach (nodestack_top (st s)) n (heap s) @
           [\<lparr>Child = [], Start = n, anc = nodestack_top (st s),
             index = int_wrap (index_var s + 1), kind = ForRangeStmt, action = Nop, ident = [],
             val = EmptyCell\<rparr>],
        root := (if nodestack_top (st s) = None then Some n else root s),
        index_var := int_wrap (index_var s + 1)\<rparr>"
    have e1: "addChild s (nodestack_top (st s)) ForRangeStmt Nop = (s1, n)"
      by (simp add: addChild_eq a s1_def n_def)
    have l1: "length (heap s1) = Suc n"
      by (simp add: s1_def n_def)
    have e2: "addChild s1 (Some n) RangeStmt Range_action =
      (s1\<lparr>heap := attach (Some n) (length (heap s1)) (heap s1) @
           [\<lparr>Child = [], Start = length (heap s1), anc = Some n,
             index = int_wrap (index_var s1 + 1), kind = RangeStmt, action = Range_action,
             ident = [], val = EmptyCell\<rparr>],
        root := (if Some n = None then Some (length (heap s1)) else root s1),
        index_var := int_wrap (index_var s1 + 1)\<rparr>,
       length (heap s1))"
      by (rule addChild_eq) (simp add: l1)
    show ?thesis
      by (simp add: ast_RangeStmt e1 e2 l1 Let_def fresh_def origins1_def push_def
            nodestack_push_def)
         (simp add: s1_def n_def attach_Some_snoc)
  qed (simp_all add: addChild_eq a Let_def fresh_def origins1_def push_def nodestack_push_def
          update_node_def update_snoc nth_snoc
          split: token.splits sum.splits)
qed


lemma int_wrap_Suc: "int_wrap (int_wrap x + 1) = int_wrap (x + 1)"
proof -
  have "(x + 2 ^ 63) mod 2 ^ 64 + 1 = ((x + 2 ^ 63) mod 2 ^ 64 - 2 ^ 63 + 1) + (2 ^ 63 :: int)"
    by simp
  moreover have "((x + 2 ^ 63) mod 2 ^ 64 + 1) mod 2 ^ 64 = (x + 2 ^ 63 + 1) mod (2 ^ 64 :: int)"
    by (simp add: mod_add_left_eq)
  ultimately show ?thesis
    by (simp add: int_wrap_def IntSize_def add.commute add.left_commute)
qed

lemma int_wrap_Suc': "int_wrap (1 + int_wrap x) = int_wrap (1 + x)"
  using int_wrap_Suc [of x] by (simp add: add.commute)

lemma kind_of_not_ForRangeStmt: "kind_of node \<noteq> ForRangeStmt"
  by (cases node) (simp_all add: Kind_defs)

lemma kind_of_RangeStmt: "(kind_of node = RangeStmt) = (length (origins1 node) = 2)"
  by (cases node) (simp_all add: Kind_defs origins1_def)

definition graph_inv :: "lowering \<Rightarrow> bool" where
  "graph_inv s =
     (stack_valid s \<and> index_var s = int_wrap (int (length (heap s))) \<and>
      (\<forall>i<length (heap s).
         index (heap s ! i) = int_wrap (int i + 1) \<and> Start (heap s ! i) = i \<and>
         (kind (heap s ! i) = ForRangeStmt \<longrightarrow>
            i \<notin> set (st s) \<and> Suc i < length (heap s) \<and> Child (heap s ! i) = [Suc i] \<and>
            kind (heap s ! Suc i) = RangeStmt \<and> action (heap s ! Suc i) = Range_action \<and>
            anc (heap s ! Suc i) = Some i) \<and>
         (kind (heap s ! i) = RangeStmt \<longrightarrow> 0 < i \<and> kind (heap s ! (i - 1)) = ForRangeStmt)))"

lemma graph_inv_old:
  assumes inv: "graph_inv s" and i: "i < length (heap s)"
    and h: "h = attach (nodestack_top (st s)) m (heap s)"
  shows "index (h ! i) = int_wrap (int i + 1)" "Start (h ! i) = i"
    "kind (h ! i) = kind (heap s ! i)" "action (h ! i) = action (heap s ! i)"
    "anc (h ! i) = anc (heap s ! i)"
    "i \<notin> set (st s) \<Longrightarrow> h ! i = heap s ! i"
  using inv i top_in_stack [of "st s" i]
  by (auto simp: graph_inv_def h attach_nth)

lemma graph_inv_visit_Some:
  assumes inv: "graph_inv s" and v: "visit (Some node) s = Inr s1"
  shows "graph_inv s1"
proof -
  define n where "n = length (heap s)"
  define h where "h = attach (nodestack_top (st s)) n (heap s)"
  have sv: "stack_valid s" using inv by (simp add: graph_inv_def)
  from visit_Some_heap [OF sv, of node] v have
    s1: "st s1 = st s @ [n + length (origins1 node) - 1]"
        "index_var s1 = index (last (fresh node s))"
        "heap s1 = h @ fresh node s"
    by (auto simp: n_def h_def)
  have lh: "length h = n" by (simp add: h_def n_def)
  have iv: "index_var s = int_wrap (int n)" using inv by (simp add: graph_inv_def n_def)
  have old: "\<And>i. i < n \<Longrightarrow> index (h ! i) = int_wrap (int i + 1) \<and> Start (h ! i) = i
      \<and> kind (h ! i) = kind (heap s ! i) \<and> action (h ! i) = action (heap s ! i)
      \<and> anc (h ! i) = anc (heap s ! i) \<and> (i \<notin> set (st s) \<longrightarrow> h ! i = heap s ! i)"
    using graph_inv_old [OF inv _ h_def [unfolded n_def]] by (simp add: n_def)
  have olds: "\<And>a. a \<in> set (st s) \<Longrightarrow> a < n"
    using sv by (auto simp: stack_valid_def n_def)
  have invs: "\<And>i. i < n \<Longrightarrow>
         (kind (heap s ! i) = ForRangeStmt \<longrightarrow>
            i \<notin> set (st s) \<and> Suc i < n \<and> Child (heap s ! i) = [Suc i] \<and>
            kind (heap s ! Suc i) = RangeStmt \<and> action (heap s ! Suc i) = Range_action \<and>
            anc (heap s ! Suc i) = Some i) \<and>
         (kind (heap s ! i) = RangeStmt \<longrightarrow> 0 < i \<and> kind (heap s ! (i - 1)) = ForRangeStmt)"
    using inv by (simp add: graph_inv_def n_def)
  show ?thesis
  proof (cases "length (origins1 node) = 2")
    case False
    then have f: "fresh node s = [\<lparr>Child = [], Start = n, anc = nodestack_top (st s),
          index = int_wrap (index_var s + 1), kind = kind_of node,
          action = action_of node, ident = ident_of node, val = val_of node\<rparr>]"
      and o1: "length (origins1 node) = 1"
      by (cases node; simp add: fresh_def origins1_def n_def Let_def)+
    have k: "kind_of node \<noteq> ForRangeStmt" "kind_of node \<noteq> RangeStmt"
      using False kind_of_not_ForRangeStmt kind_of_RangeStmt by auto
    show ?thesis
      unfolding graph_inv_def stack_valid_def
      using old olds invs k
      by (auto simp: s1 f o1 lh nth_append iv int_wrap_Suc' less_Suc_eq add.commute)
  next
    case True
    then have f: "fresh node s =
          [\<lparr>Child = [Suc n], Start = n, anc = nodestack_top (st s),
            index = int_wrap (index_var s + 1), kind = ForRangeStmt, action = Nop,
            ident = [], val = EmptyCell\<rparr>,
           \<lparr>Child = [], Start = Suc n, anc = Some n,
            index = int_wrap (int_wrap (index_var s + 1) + 1), kind = RangeStmt,
            action = Range_action, ident = [], val = EmptyCell\<rparr>]"
      by (cases node; simp add: fresh_def origins1_def n_def Let_def)
    have k: "RangeStmt \<noteq> ForRangeStmt" by (simp add: Kind_defs)
    show ?thesis
      unfolding graph_inv_def stack_valid_def
      using old olds invs k
      by (auto simp: s1 f True lh nth_append iv int_wrap_Suc' less_Suc_eq add.commute)
  qed
qed


lemma graph_inv_visit:
  assumes "graph_inv s" and "visit x s = Inr s1"
  shows "graph_inv s1"
proof (cases x)
  case None
  with assms(2) have s1: "s1 = s\<lparr>st := butlast (st s)\<rparr>"
    by (auto simp: nodestack_pop_def split: if_splits)
  show ?thesis
    using assms(1) by (auto simp: graph_inv_def stack_valid_def s1 dest: in_set_butlastD)
next
  case (Some node)
  with assms show ?thesis by (auto intro: graph_inv_visit_Some)
qed

lemma graph_inv_init: "graph_inv init_lowering"
  by (simp add: graph_inv_def stack_valid_def init_lowering_def int_wrap_def IntSize_def)

lemma int_wrap_small: "0 \<le> x \<Longrightarrow> x < 2 ^ (IntSize - 1) \<Longrightarrow> int_wrap x = x"
  by (simp add: int_wrap_def IntSize_def)

lemma Ast_result:
  assumes "ParseFile src = Inr f"
  shows "\<exists>s. Ast ParseFile src = Inr (heap s, root s, def_map s)
      \<and> map shape (heap s) = map lowered (origins f) \<and> graph_inv s"
proof -
  from Inspect_shape [of f init_lowering] obtain s where
    s: "Inspect f init_lowering = Inr s"
       "map shape (heap s) = map shape (heap init_lowering) @ map lowered (origins f)"
    by auto
  have "graph_inv s"
    by (rule Inspect_preserves [where P = graph_inv, OF graph_inv_visit graph_inv_init s(1)])
  then show ?thesis
    using s assms by (auto simp: Ast_def init_lowering_def)
qed

lemma Ast_node:
  assumes "ParseFile src = Inr f" and "i < length (origins f)"
  shows "\<exists>h r d. Ast ParseFile src = Inr (h, r, d) \<and> length h = length (origins f)
      \<and> shape (h ! i) = lowered (origins f ! i)"
proof -
  from Ast_result [of ParseFile src f, OF assms(1)] obtain s where
    s: "Ast ParseFile src = Inr (heap s, root s, def_map s)"
       "map shape (heap s) = map lowered (origins f)" "graph_inv s"
    by (elim exE conjE)
  have l: "length (heap s) = length (origins f)"
    using s(2) by (metis length_map)
  have "map shape (heap s) ! i = map lowered (origins f) ! i"
    using s(2) by simp
  then have "shape (heap s ! i) = lowered (origins f ! i)"
    using assms(2) l by simp
  then show ?thesis using s(1) l by auto
qed

lemmas ParseInt_eval = ParseInt_def ParseUint_def base_prefix_def byte_digit_def Let_def
  lower_def char_le_def char_diff_def maxUint64_def IntSize_def underscoreOK_def

section \<open>The integer literals that \<open>ParseInt\<close> accepts\<close>

text \<open>
  \<open>ParseInt\<close> succeeds exactly on the integer literals of Go, with an optional sign, whose
  value fits \<^verbatim>\<open>int\<close> (\<open>ParseInt_Inr_iff\<close> below).
  \<^item> \<open>is_digit_of base c\<close>: \<open>c\<close> is a digit of the base;
  \<^item> \<open>digits_ok base prev ds\<close>: \<open>ds\<close> is a sequence of digits of the base in which a single
    underscore may stand between two digits, and before the first digit when \<open>prev\<close> holds
    (a base prefix or a leading \<^verbatim>\<open>0\<close> came before); without \<open>prev\<close> the sequence is not
    empty;
  \<^item> \<open>digits_value base n ds\<close>: the value of the digits, read after the value \<open>n\<close>;
  \<^item> \<open>is_int_literal s\<close>: after an optional sign, \<open>s\<close> is a decimal literal that does not
    start with \<^verbatim>\<open>0\<close>, or \<^verbatim>\<open>0b\<close>, \<^verbatim>\<open>0o\<close>, \<^verbatim>\<open>0x\<close> and digits of base 2, 8, 16, or
    \<^verbatim>\<open>0\<close> and digits of base 8 (none for \<^verbatim>\<open>0\<close> itself);
  \<^item> \<open>literal_value s\<close>: the signed value of the literal.
\<close>

definition is_digit_of :: "nat \<Rightarrow> char \<Rightarrow> bool" where
  "is_digit_of base c = (case byte_digit c of None \<Rightarrow> False | Some d \<Rightarrow> d < base)"

fun digits_ok :: "nat \<Rightarrow> bool \<Rightarrow> string \<Rightarrow> bool" where
  "digits_ok base prev [] = prev"
| "digits_ok base prev (c # cs) =
     (if c = CHR ''_'' then prev \<and> digits_ok base False cs
      else is_digit_of base c \<and> digits_ok base True cs)"

fun digits_value :: "nat \<Rightarrow> nat \<Rightarrow> string \<Rightarrow> nat" where
  "digits_value base n [] = n"
| "digits_value base n (c # cs) =
     (case byte_digit c of
        None \<Rightarrow> digits_value base n cs
      | Some d \<Rightarrow> digits_value base (n * base + d) cs)"

lemma byte_digit_underscore [simp]: "byte_digit (CHR ''_'') = None"
  by (simp add: byte_digit_def char_le_def lower_def)

lemma digits_value_mono: "n \<le> digits_value base n cs" if "0 < base"
  using that
proof (induction cs arbitrary: n)
  case Nil
  then show ?case by simp
next
  case (Cons c cs)
  show ?case
  proof (cases "byte_digit c")
    case None
    then show ?thesis using Cons by simp
  next
    case (Some d)
    have "n \<le> n * base" using Cons.prems by simp
    also have "\<dots> \<le> n * base + d" by simp
    also have "\<dots> \<le> digits_value base (n * base + d) cs" using Cons by simp
    finally show ?thesis using Some by simp
  qed
qed

lemma cutoff_step:
  assumes "0 < base" "d < base"
  shows "(n \<ge> maxUint64 div base + 1 \<or> n * base + d > maxUint64) = (n * base + d > maxUint64)"
proof -
  have "maxUint64 < n * base" if "n \<ge> maxUint64 div base + 1"
  proof -
    have "maxUint64 div base < n" using that by simp
    then show ?thesis using assms(1)
      by (simp add: div_less_iff_less_mult)
  qed
  then show ?thesis by auto
qed

definition all_valid :: "nat \<Rightarrow> string \<Rightarrow> bool" where
  "all_valid base cs = list_all (\<lambda>c. c = CHR ''_'' \<or> is_digit_of base c) cs"

lemma ParseUint_loop_Inr:
  assumes "0 < base"
  shows "n \<le> maxUint64 \<Longrightarrow> (ParseUint_loop base cs n u = Inr (m, u')) =
     (all_valid base cs \<and> digits_value base n cs \<le> maxUint64 \<and> m = digits_value base n cs
      \<and> u' = (u \<or> CHR ''_'' \<in> set cs))"
proof (induction cs arbitrary: n u)
  case Nil
  then show ?case by (auto simp: all_valid_def)
next
  case (Cons c cs)
  show ?case
  proof (cases "c = CHR ''_''")
    case True
    then show ?thesis using Cons.IH [of n True] Cons.prems by (auto simp: all_valid_def)
  next
    case False
    show ?thesis
    proof (cases "byte_digit c")
      case None
      then show ?thesis using False by (simp add: all_valid_def is_digit_of_def)
    next
      case (Some d)
      show ?thesis
      proof (cases "d < base")
        case db: True
        note step = cutoff_step [OF assms db, of n]
        show ?thesis
        proof (cases "n * base + d > maxUint64")
          case True
          moreover have "n * base + d \<le> digits_value base (n * base + d) cs"
            by (rule digits_value_mono [OF assms])
          ultimately show ?thesis
            using False Some db step by (auto simp: all_valid_def is_digit_of_def)
        next
          case nb: False
          then have "\<not> n \<ge> maxUint64 div base + 1" using step by blast
          then show ?thesis
            using False Some db nb Cons.IH [of "n * base + d" u]
            by (auto simp: all_valid_def is_digit_of_def)
        qed
      next
        case False
        then show ?thesis using \<open>c \<noteq> CHR ''_''\<close> Some by (simp add: all_valid_def is_digit_of_def)
      qed
    qed
  qed
qed



lemma lower_code:
  "(of_char (lower c) :: nat) =
     (if (of_char c div 32) mod 2 = (0::nat) then of_char c + 32 else of_char c)"
proof -
  have "(of_char c :: nat) < 256" by simp
  moreover have "n + 32 < 256" if "n < 256" "(n div 32) mod 2 = 0" for n :: nat
    using that by presburger
  ultimately show ?thesis
    by (simp add: lower_def Let_def)
qed

lemma char_eq_code: "(a = b) = ((of_char a :: nat) = of_char b)"
  by simp

lemma digit_below_10:
  assumes "is_digit_of base c" "base \<le> 10"
  shows "char_le (CHR ''0'') c \<and> char_le c (CHR ''9'')"
  using assms
  by (auto simp: is_digit_of_def byte_digit_def split: if_splits)

lemma digit_below_16:
  assumes "is_digit_of 16 c"
  shows "(char_le (CHR ''0'') c \<and> char_le c (CHR ''9''))
     \<or> (char_le (CHR ''a'') (lower c) \<and> char_le (lower c) (CHR ''f''))"
  using assms
  by (auto simp: is_digit_of_def byte_digit_def char_le_def char_diff_def split: if_splits)

lemma digit_not_special:
  assumes "is_digit_of base c"
  shows "c \<noteq> CHR ''_''" "c \<noteq> CHR ''+''" "c \<noteq> CHR ''-''"
  using assms
  by (auto simp: is_digit_of_def byte_digit_def char_le_def lower_def)

lemma octal_digit_no_prefix_letter:
  assumes "is_digit_of 8 c"
  shows "lower c \<noteq> CHR ''b''" "lower c \<noteq> CHR ''o''" "lower c \<noteq> CHR ''x''"
proof -
  from digit_below_10 [OF assms] have "(48::nat) \<le> of_char c" "(of_char c :: nat) \<le> 57"
    by (simp_all add: char_le_def)
  then have "(of_char (lower c) :: nat) \<le> 89"
    by (simp add: lower_code)
  then show "lower c \<noteq> CHR ''b''" "lower c \<noteq> CHR ''o''" "lower c \<noteq> CHR ''x''"
    by (auto simp: char_eq_code [of "lower c"] simp del: of_char_eq_iff)
qed

lemma underscore_no_prefix_letter:
  "lower (CHR ''_'') \<noteq> CHR ''b''" "lower (CHR ''_'') \<noteq> CHR ''o''"
  "lower (CHR ''_'') \<noteq> CHR ''x''"
  using lower_code [of "CHR ''_''"]
  by (simp_all add: char_eq_code [of "lower (CHR ''_'')"] del: of_char_eq_iff)

definition uok_digit :: "bool \<Rightarrow> char \<Rightarrow> bool" where
  "uok_digit hex c =
     ((char_le (CHR ''0'') c \<and> char_le c (CHR ''9''))
      \<or> (hex \<and> char_le (CHR ''a'') (lower c) \<and> char_le (lower c) (CHR ''f'')))"

lemma underscore_not_uok: "\<not> uok_digit hex (CHR ''_'')"
  by (simp add: uok_digit_def char_le_def lower_def)

lemma digit_uok:
  assumes "is_digit_of base c" "base \<le> 10 \<or> (base = 16 \<and> hex)"
  shows "uok_digit hex c"
  using assms digit_below_10 [of base c] digit_below_16 [of c]
  by (auto simp: uok_digit_def)

lemma underscoreOK_loop_Cons:
  "underscoreOK_loop hex (c # cs) saw =
     (if uok_digit hex c then underscoreOK_loop hex cs saw_digit
      else if c = CHR ''_''
      then (if saw \<noteq> saw_digit then False else underscoreOK_loop hex cs saw_underscore)
      else if saw = saw_underscore then False
      else underscoreOK_loop hex cs saw_other)"
  by (simp add: uok_digit_def)

lemma underscoreOK_loop_digits_ok:
  assumes "base \<le> 10 \<or> (base = 16 \<and> hex)"
  shows "all_valid base cs \<Longrightarrow> cs \<noteq> [] \<or> saw \<noteq> saw_begin \<Longrightarrow> saw \<noteq> saw_other \<Longrightarrow>
     underscoreOK_loop hex cs saw = digits_ok base (saw = saw_digit) cs"
proof (induction cs arbitrary: saw)
  case Nil
  then show ?case by (cases saw) simp_all
next
  case (Cons c cs)
  have v: "all_valid base cs" using Cons.prems(1) by (simp add: all_valid_def)
  show ?case
  proof (cases "c = CHR ''_''")
    case True
    have "underscoreOK_loop hex cs saw_underscore = digits_ok base False cs"
      using Cons.IH [OF v, of saw_underscore] by simp
    then show ?thesis
      using True underscore_not_uok [of hex]
      by (simp add: underscoreOK_loop_Cons del: underscoreOK_loop.simps)
  next
    case False
    then have d: "is_digit_of base c" using Cons.prems(1) by (simp add: all_valid_def)
    have "underscoreOK_loop hex cs saw_digit = digits_ok base True cs"
      using Cons.IH [OF v, of saw_digit] by simp
    then show ?thesis
      using False d digit_uok [OF d assms]
      by (simp add: underscoreOK_loop_Cons del: underscoreOK_loop.simps)
  qed
qed

lemma digits_ok_all_valid: "digits_ok base prev cs \<Longrightarrow> all_valid base cs"
  by (induction cs arbitrary: prev) (auto simp: all_valid_def split: if_splits)

lemma digits_ok_no_underscore:
  "CHR ''_'' \<notin> set cs \<Longrightarrow> all_valid base cs \<Longrightarrow> digits_ok base prev cs = (cs \<noteq> [] \<or> prev)"
  by (induction cs arbitrary: prev) (auto simp: all_valid_def)


lemma base_prefix_cases:
  assumes "base_prefix s = (b, ds)"
  shows "(hd s \<noteq> CHR ''0'' \<and> b = 10 \<and> ds = s)
     \<or> (hd s = CHR ''0'' \<and> length s \<ge> 3 \<and> lower (s ! 1) = CHR ''b'' \<and> b = 2 \<and> ds = drop 2 s)
     \<or> (hd s = CHR ''0'' \<and> length s \<ge> 3 \<and> lower (s ! 1) = CHR ''o'' \<and> b = 8 \<and> ds = drop 2 s)
     \<or> (hd s = CHR ''0'' \<and> length s \<ge> 3 \<and> lower (s ! 1) = CHR ''x'' \<and> b = 16 \<and> ds = drop 2 s)
     \<or> (hd s = CHR ''0'' \<and> b = 8 \<and> ds = tl s
          \<and> \<not> (length s \<ge> 3 \<and> (lower (s ! 1) = CHR ''b'' \<or> lower (s ! 1) = CHR ''o''
                \<or> lower (s ! 1) = CHR ''x'')))"
  using assms by (auto simp: base_prefix_def drop_Suc split: if_splits)

lemma zero_uok: "uok_digit hex (CHR ''0'')"
  by (simp add: uok_digit_def char_le_def)

lemma underscoreOK_digits_ok:
  assumes s: "s \<noteq> []" and bp: "base_prefix s = (b, ds)" and v: "all_valid b ds"
    and u: "CHR ''_'' \<in> set ds"
  shows "underscoreOK s = digits_ok b (b \<noteq> 10) ds"
proof -
  have ds: "ds \<noteq> []" using u by auto
  from base_prefix_cases [OF bp] consider
    (dec) "hd s \<noteq> CHR ''0''" "b = 10" "ds = s"
  | (pre) "hd s = CHR ''0''" "length s \<ge> 3" "ds = drop 2 s"
      "lower (s ! 1) = CHR ''b'' \<or> lower (s ! 1) = CHR ''o'' \<or> lower (s ! 1) = CHR ''x''"
      "b \<le> 10 \<or> (b = 16 \<and> lower (s ! 1) = CHR ''x'')" "b \<noteq> 10"
  | (oct) "hd s = CHR ''0''" "b = 8" "ds = tl s"
    by auto
  then show ?thesis
  proof cases
    case dec
    have "hd s \<in> set s" using s by simp
    then have "hd s = CHR ''_'' \<or> is_digit_of 10 (hd s)"
      using v dec by (auto simp: all_valid_def list_all_iff)
    then have nosign: "hd s \<noteq> CHR ''-''" "hd s \<noteq> CHR ''+''"
      using digit_not_special [of 10 "hd s"] by auto
    have "underscoreOK s = underscoreOK_loop False s saw_begin"
      using nosign dec(1) by (simp add: underscoreOK_def)
    also have "\<dots> = digits_ok 10 (saw_begin = saw_digit) s"
      using underscoreOK_loop_digits_ok [of 10 False s saw_begin] v dec s by simp
    finally show ?thesis using dec by simp
  next
    case pre
    have "underscoreOK s = underscoreOK_loop (lower (s ! 1) = CHR ''x'') (drop 2 s) saw_digit"
      using pre by (auto simp: underscoreOK_def)
    also have "\<dots> = digits_ok b (saw_digit = saw_digit) (drop 2 s)"
      using underscoreOK_loop_digits_ok [of b "lower (s ! 1) = CHR ''x''" "drop 2 s" saw_digit]
        v pre by simp
    finally show ?thesis using pre by simp
  next
    case oct
    have s': "s = CHR ''0'' # ds"
      using oct s by (cases s) auto
    have "hd ds \<in> set ds" using ds by simp
    then have "hd ds = CHR ''_'' \<or> is_digit_of 8 (hd ds)"
      using v oct(2) by (auto simp: all_valid_def list_all_iff)
    then have "lower (hd ds) \<noteq> CHR ''b'' \<and> lower (hd ds) \<noteq> CHR ''o'' \<and> lower (hd ds) \<noteq> CHR ''x''"
      using octal_digit_no_prefix_letter [of "hd ds"] underscore_no_prefix_letter by auto
    moreover have "s ! 1 = hd ds"
      using s' ds by (cases ds) auto
    ultimately have "underscoreOK s = underscoreOK_loop False s saw_begin"
      by (simp add: underscoreOK_def s')
    also have "\<dots> = underscoreOK_loop False ds saw_digit"
      by (subst s') (simp add: underscoreOK_loop_Cons zero_uok del: underscoreOK_loop.simps)
    also have "\<dots> = digits_ok 8 (saw_digit = saw_digit) ds"
      using underscoreOK_loop_digits_ok [of 8 False ds saw_digit] v oct by simp
    finally show ?thesis using oct by simp
  qed
qed

lemma base_prefix_base:
  assumes "base_prefix s = (b, ds)"
  shows "0 < b" "b = 10 \<Longrightarrow> s \<noteq> [] \<Longrightarrow> ds \<noteq> []"
  using base_prefix_cases [OF assms] by auto

lemma ParseUint_Inr:
  "(ParseUint s = Inr n) =
     (s \<noteq> [] \<and> (case base_prefix s of (b, ds) \<Rightarrow>
        digits_ok b (b \<noteq> 10) ds \<and> digits_value b 0 ds \<le> maxUint64 \<and> n = digits_value b 0 ds))"
proof (cases "s = []")
  case True
  then show ?thesis by (simp add: ParseUint_def)
next
  case False
  obtain b ds where bp: "base_prefix s = (b, ds)" by (cases "base_prefix s")
  note b = base_prefix_base [OF bp]
  have loop: "(ParseUint_loop b ds 0 False = Inr (m, u')) =
     (all_valid b ds \<and> digits_value b 0 ds \<le> maxUint64 \<and> m = digits_value b 0 ds
      \<and> u' = (CHR ''_'' \<in> set ds))" for m u'
    using ParseUint_loop_Inr [OF b(1), of 0 ds False m u'] by simp
  have ok: "digits_ok b (b \<noteq> 10) ds = (CHR ''_'' \<in> set ds \<longrightarrow> underscoreOK s)"
    if "all_valid b ds"
  proof (cases "CHR ''_'' \<in> set ds")
    case True
    then show ?thesis using underscoreOK_digits_ok [OF False bp that True] by simp
  next
    case nu: False
    then show ?thesis
      using digits_ok_no_underscore [OF nu that, of "b \<noteq> 10"] b(2) False by auto
  qed
  show ?thesis
  proof (cases "ParseUint_loop b ds 0 False")
    case (Inl e)
    then have "\<not> (all_valid b ds \<and> digits_value b 0 ds \<le> maxUint64)"
      using loop by auto
    then show ?thesis
      using Inl False bp digits_ok_all_valid [of b "b \<noteq> 10" ds]
      by (auto simp: ParseUint_def)
  next
    case (Inr r)
    obtain m u' where r: "r = (m, u')" by (cases r)
    from Inr r loop [of m u'] have l: "all_valid b ds" "digits_value b 0 ds \<le> maxUint64"
      "m = digits_value b 0 ds" "u' = (CHR ''_'' \<in> set ds)"
      by auto
    show ?thesis
      using Inr r False bp l ok [OF l(1)]
      by (auto simp: ParseUint_def)
  qed
qed

definition unsigned_part :: "string \<Rightarrow> string" where
  "unsigned_part s = (if s \<noteq> [] \<and> (hd s = CHR ''+'' \<or> hd s = CHR ''-'') then tl s else s)"

lemma ParseInt_Inr:
  "(ParseInt s = Inr v) =
     (s \<noteq> [] \<and> (\<exists>un. ParseUint (unsigned_part s) = Inr un \<and>
        (if hd s = CHR ''-'' then un \<le> 2 ^ 63 \<and> v = - int un else un < 2 ^ 63 \<and> v = int un)))"
  by (auto simp: ParseInt_def unsigned_part_def Let_def IntSize_def maxUint64_def
      split: sum.splits num_error.splits)

definition is_int_literal :: "string \<Rightarrow> bool" where
  "is_int_literal s =
     (unsigned_part s \<noteq> [] \<and>
      (case base_prefix (unsigned_part s) of (b, ds) \<Rightarrow> digits_ok b (b \<noteq> 10) ds))"

definition literal_value :: "string \<Rightarrow> int" where
  "literal_value s =
     (case base_prefix (unsigned_part s) of (b, ds) \<Rightarrow>
        if s \<noteq> [] \<and> hd s = CHR ''-'' then - int (digits_value b 0 ds)
        else int (digits_value b 0 ds))"

theorem ParseInt_Inr_iff:
  "(ParseInt s = Inr v) =
     (is_int_literal s \<and> - (2 ^ 63) \<le> literal_value s \<and> literal_value s < 2 ^ 63
      \<and> v = literal_value s)"
proof -
  obtain b ds where bp: "base_prefix (unsigned_part s) = (b, ds)"
    by (cases "base_prefix (unsigned_part s)")
  have e: "unsigned_part s \<noteq> [] \<Longrightarrow> s \<noteq> []"
    by (auto simp: unsigned_part_def)
  have m: "(2 :: nat) ^ 63 \<le> maxUint64"
    by (simp add: maxUint64_def)
  show ?thesis
    using e m
    by (auto simp: ParseInt_Inr ParseUint_Inr is_int_literal_def literal_value_def bp)
qed

section \<open>Sample sources\<close>

text \<open>
  Go sources with the trees \<^verbatim>\<open>go/parser\<close> returns for them, and a parser that knows these
  sources only; on every other source it fails as \<^verbatim>\<open>go/parser\<close> fails on the empty source.
  The theorems below that hold for every parser take the parser as a parameter; this one
  gives their instances and the counterexamples.
\<close>

definition func_f :: "gonode list \<Rightarrow> gonode" where
  \<comment> \<open>\<^verbatim>\<open>package p; func f() { ... }\<close> with the statements of the body\<close>
  "func_f body = ast_File (ast_Ident ''p'')
     [ast_FuncDecl None ''f'' (ast_FuncType (Some (ast_FieldList [])) None)
        (Some (ast_BlockStmt body))]"

definition src_for_init :: string where
  "src_for_init = ''package p; func f() { for i := 0; ; { } }''"

definition tree_for_init :: gonode where
  "tree_for_init = func_f
     [ast_ForStmt (Some (ast_AssignStmt [ast_Ident ''i''] [ast_BasicLit ''0''])) None None
        (ast_BlockStmt [])]"

definition src_for_cond :: string where
  "src_for_cond = ''package p; func f() { for x { } }''"

definition tree_for_cond :: gonode where
  "tree_for_cond = func_f [ast_ForStmt None (Some (ast_Ident ''x'')) None (ast_BlockStmt [])]"

definition src_goto :: string where
  "src_goto = ''package p; func f() { L: goto L }''"

definition tree_goto :: gonode where
  "tree_goto = func_f
     [ast_Other ''*ast.LabeledStmt''
        [ast_Ident ''L'', ast_BranchStmt token_GOTO (Some (ast_Ident ''L''))]]"

definition src_break :: string where
  "src_break = ''package p; func f() { for { break } }''"

definition tree_break :: gonode where
  "tree_break = func_f
     [ast_ForStmt None None None (ast_BlockStmt [ast_BranchStmt token_BREAK None])]"

definition src_if_else :: string where
  "src_if_else = ''package p; func f() { if x { } else { } }''"

definition tree_if_else :: gonode where
  "tree_if_else = func_f
     [ast_IfStmt None (ast_Ident ''x'') (ast_BlockStmt []) (Some (ast_BlockStmt []))]"

definition src_assign :: string where
  "src_assign = ''package p; func f() { a, b = g(); c = a + b }''"

definition tree_assign :: gonode where
  "tree_assign = func_f
     [ast_AssignStmt [ast_Ident ''a'', ast_Ident ''b''] [ast_CallExpr (ast_Ident ''g'') []],
      ast_AssignStmt [ast_Ident ''c'']
        [ast_BinaryExpr (ast_Ident ''a'') token_ADD (ast_Ident ''b'')]]"

definition src_range :: string where
  "src_range = ''package p; func f() { for range x { } }''"

definition tree_range :: gonode where
  "tree_range = func_f [ast_RangeStmt None None (ast_Ident ''x'') (ast_BlockStmt [])]"

definition src_big_literal :: string where
  "src_big_literal = ''package p; var x = 9223372036854775808''"

definition tree_big_literal :: gonode where
  "tree_big_literal = ast_File (ast_Ident ''p'')
     [ast_Other ''*ast.GenDecl''
        [ast_Other ''*ast.ValueSpec'' [ast_Ident ''x'', ast_BasicLit ''9223372036854775808'']]]"

definition src_literal :: string where
  "src_literal = ''package p; var x = 42''"

definition tree_literal :: gonode where
  "tree_literal = ast_File (ast_Ident ''p'')
     [ast_Other ''*ast.GenDecl''
        [ast_Other ''*ast.ValueSpec'' [ast_Ident ''x'', ast_BasicLit ''42'']]]"

definition eof_error :: string where
  "eof_error = ''sample.go:1:1: expected '' @ [CHR 0x27] @ ''package'' @ [CHR 0x27]
     @ '', found '' @ [CHR 0x27] @ ''EOF'' @ [CHR 0x27]"

definition sample_parser :: "string \<Rightarrow> string + gonode" where
  "sample_parser src =
     (if src = src_for_init then Inr tree_for_init
      else if src = src_for_cond then Inr tree_for_cond
      else if src = src_goto then Inr tree_goto
      else if src = src_break then Inr tree_break
      else if src = src_if_else then Inr tree_if_else
      else if src = src_assign then Inr tree_assign
      else if src = src_range then Inr tree_range
      else if src = src_big_literal then Inr tree_big_literal
      else if src = src_literal then Inr tree_literal
      else Inl eof_error)"

lemmas src_defs =
  src_for_init_def src_for_cond_def src_goto_def src_break_def src_if_else_def src_assign_def
  src_range_def src_big_literal_def src_literal_def

lemmas tree_defs =
  func_f_def tree_for_init_def tree_for_cond_def tree_goto_def tree_break_def tree_if_else_def
  tree_assign_def tree_range_def tree_big_literal_def tree_literal_def

lemmas origins_eval = origins.simps non_nil_def

lemmas Ast_eval =
  Ast_def Inspect.simps init_lowering_def addChild_def push_def nodestack_push_def
  nodestack_pop_def nodestack_top_def update_node_def non_nil_def Let_def int_wrap_def
  ParseInt_eval

section \<open>The claims about the kinds and actions of lowered nodes\<close>

lemma Ast_deterministic:
  "Ast ParseFile src = Inr (h, r, d) \<Longrightarrow> Ast ParseFile src = Inr (h', r', d') \<Longrightarrow> h' = h"
  by simp




text \<open>
  Claim C4 (amended). For every surface branch statement lowered by \<open>Ast\<close>, the kind of the
  node created for it is \<open>Break\<close> exactly when its token is \<^verbatim>\<open>break\<close>, and \<open>Continue\<close>
  exactly when its token is \<^verbatim>\<open>continue\<close>: a branch statement with another token
  (\<^verbatim>\<open>goto\<close>, \<^verbatim>\<open>fallthrough\<close>) gets neither kind.
\<close>

theorem branch_kind_by_token:
  assumes "ParseFile src = Inr f" and "i < length (origins f)"
    and "origins f ! i = Some (ast_BranchStmt Tok Label)"
  shows "\<exists>h r d. Ast ParseFile src = Inr (h, r, d) \<and> i < length h \<and>
     ((kind (h ! i) = Break) = (Tok = token_BREAK)) \<and>
     ((kind (h ! i) = Continue) = (Tok = token_CONTINUE))"
proof -
  from Ast_node [of ParseFile src f i, OF assms(1,2)] obtain h r d where
    h: "Ast ParseFile src = Inr (h, r, d)" "length h = length (origins f)"
       "shape (h ! i) = lowered (origins f ! i)"
    by (elim exE conjE)
  have "kind (h ! i) = kind_of (ast_BranchStmt Tok Label)"
    using h(3) assms(3) by (simp add: shape_def)
  then show ?thesis
    using h(1,2) assms(2) by (auto simp: Kind_defs)
qed

theorem branch_kind_by_token_witness:
  "\<exists>h r d. Ast sample_parser src_break = Inr (h, r, d) \<and> 9 < length h \<and> kind (h ! 9) = Break"
proof -
  have p: "sample_parser src_break = Inr tree_break"
    by (simp add: sample_parser_def src_defs)
  have l: "9 < length (origins tree_break)"
    by (simp add: tree_defs origins_eval)
  have o: "origins tree_break ! 9 = Some (ast_BranchStmt token_BREAK None)"
    by (simp add: tree_defs origins_eval)
  from branch_kind_by_token [where ParseFile = sample_parser and src = src_break, OF p l o]
  show ?thesis by auto
qed

text \<open>
  Claim C4 as stated fails: the branch statement \<^verbatim>\<open>goto L\<close> is lowered to a node of kind
  \<open>Undef\<close>, the zero value of \<^verbatim>\<open>Kind\<close>, which is neither \<open>Break\<close> nor \<open>Continue\<close>.
\<close>

theorem branch_kind_counterexample:
  "sample_parser src_goto = Inr tree_goto \<and>
   origins tree_goto ! 9 = Some (ast_BranchStmt token_GOTO (Some (ast_Ident ''L''))) \<and>
   (\<exists>h r d. Ast sample_parser src_goto = Inr (h, r, d) \<and> kind (h ! 9) = Undef \<and>
      kind (h ! 9) \<noteq> Break \<and> kind (h ! 9) \<noteq> Continue)"
  by (simp add: sample_parser_def src_defs tree_defs origins_eval Ast_eval Kind_defs)

text \<open>
  Claim C7. For every surface if-statement lowered by \<open>Ast\<close>, the kind of the node created
  for it is \<open>If0\<close> when it has no init and no else, \<open>If1\<close> when it has no init but an else,
  \<open>If2\<close> when it has an init but no else, and \<open>If3\<close> when it has both.
\<close>

theorem if_kind_by_shape:
  assumes "ParseFile src = Inr f" and "i < length (origins f)"
    and "origins f ! i = Some (ast_IfStmt Init Cond Body Else)"
  shows "\<exists>h r d. Ast ParseFile src = Inr (h, r, d) \<and> i < length h \<and>
     (Init = None \<and> Else = None \<longrightarrow> kind (h ! i) = If0) \<and>
     (Init = None \<and> Else \<noteq> None \<longrightarrow> kind (h ! i) = If1) \<and>
     (Init \<noteq> None \<and> Else = None \<longrightarrow> kind (h ! i) = If2) \<and>
     (Init \<noteq> None \<and> Else \<noteq> None \<longrightarrow> kind (h ! i) = If3)"
proof -
  from Ast_node [of ParseFile src f i, OF assms(1,2)] obtain h r d where
    h: "Ast ParseFile src = Inr (h, r, d)" "length h = length (origins f)"
       "shape (h ! i) = lowered (origins f ! i)"
    by (elim exE conjE)
  have "kind (h ! i) = kind_of (ast_IfStmt Init Cond Body Else)"
    using h(3) assms(3) by (simp add: shape_def)
  then show ?thesis
    using h(1,2) assms(2) by auto
qed

theorem if_kind_by_shape_witness:
  "\<exists>h r d. Ast sample_parser src_if_else = Inr (h, r, d) \<and> 7 < length h \<and> kind (h ! 7) = If1"
proof -
  have p: "sample_parser src_if_else = Inr tree_if_else"
    by (simp add: sample_parser_def src_defs)
  have l: "7 < length (origins tree_if_else)"
    by (simp add: tree_defs origins_eval)
  have o: "origins tree_if_else ! 7 =
      Some (ast_IfStmt None (ast_Ident ''x'') (ast_BlockStmt []) (Some (ast_BlockStmt [])))"
    by (simp add: tree_defs origins_eval)
  from if_kind_by_shape [where ParseFile = sample_parser and src = src_if_else, OF p l o]
  show ?thesis by auto
qed

text \<open>
  Claim C8. For every surface binary expression lowered by \<open>Ast\<close>, the action of its node is
  \<open>Add\<close> for \<^verbatim>\<open>+\<close>, \<open>Sub\<close> for \<^verbatim>\<open>-\<close>, \<open>And\<close> for \<^verbatim>\<open>&\<close>, \<open>Equal\<close> for \<^verbatim>\<open>==\<close>,
  \<open>Greater\<close> for \<^verbatim>\<open>>\<close> and \<open>Lower\<close> for \<^verbatim>\<open><\<close>; and for every assignment statement the
  action is \<open>AssignX\<close> exactly when there are several left-hand targets and one right-hand
  expression, and \<open>Assign\<close> otherwise.
\<close>

theorem binary_and_assign_action:
  assumes "ParseFile src = Inr f" and "i < length (origins f)"
  shows "\<exists>h r d. Ast ParseFile src = Inr (h, r, d) \<and> i < length h \<and>
     (\<forall>X Op Y. origins f ! i = Some (ast_BinaryExpr X Op Y) \<longrightarrow>
        (Op = token_ADD \<longrightarrow> action (h ! i) = Add) \<and>
        (Op = token_SUB \<longrightarrow> action (h ! i) = Sub) \<and>
        (Op = token_AND \<longrightarrow> action (h ! i) = And) \<and>
        (Op = token_EQL \<longrightarrow> action (h ! i) = Equal) \<and>
        (Op = token_GTR \<longrightarrow> action (h ! i) = Greater) \<and>
        (Op = token_LSS \<longrightarrow> action (h ! i) = Lower)) \<and>
     (\<forall>Lhs Rhs. origins f ! i = Some (ast_AssignStmt Lhs Rhs) \<longrightarrow>
        ((action (h ! i) = AssignX) = (length Lhs > 1 \<and> length Rhs = 1)) \<and>
        ((action (h ! i) = Assign) = (\<not> (length Lhs > 1 \<and> length Rhs = 1))))"
proof -
  from Ast_node [of ParseFile src f i, OF assms(1,2)] obtain h r d where
    h: "Ast ParseFile src = Inr (h, r, d)" "length h = length (origins f)"
       "shape (h ! i) = lowered (origins f ! i)"
    by (elim exE conjE)
  have b: "action (h ! i) = action_of (ast_BinaryExpr X Op Y)"
    if "origins f ! i = Some (ast_BinaryExpr X Op Y)" for X Op Y
    using h(3) that by (simp add: shape_def)
  have a: "action (h ! i) = action_of (ast_AssignStmt Lhs Rhs)"
    if "origins f ! i = Some (ast_AssignStmt Lhs Rhs)" for Lhs Rhs
    using h(3) that by (simp add: shape_def)
  have "i < length h" using h(2) assms(2) by simp
  moreover have "\<forall>X Op Y. origins f ! i = Some (ast_BinaryExpr X Op Y) \<longrightarrow>
        (Op = token_ADD \<longrightarrow> action (h ! i) = Add) \<and>
        (Op = token_SUB \<longrightarrow> action (h ! i) = Sub) \<and>
        (Op = token_AND \<longrightarrow> action (h ! i) = And) \<and>
        (Op = token_EQL \<longrightarrow> action (h ! i) = Equal) \<and>
        (Op = token_GTR \<longrightarrow> action (h ! i) = Greater) \<and>
        (Op = token_LSS \<longrightarrow> action (h ! i) = Lower)"
    using b by simp
  moreover have "\<forall>Lhs Rhs. origins f ! i = Some (ast_AssignStmt Lhs Rhs) \<longrightarrow>
        ((action (h ! i) = AssignX) = (length Lhs > 1 \<and> length Rhs = 1)) \<and>
        ((action (h ! i) = Assign) = (\<not> (length Lhs > 1 \<and> length Rhs = 1)))"
    using a by (simp add: Action_defs)
  ultimately show ?thesis
    using h(1) by blast
qed

theorem binary_and_assign_action_witness:
  "\<exists>h r d. Ast sample_parser src_assign = Inr (h, r, d) \<and>
     action (h ! 14) = Add \<and> action (h ! 7) = AssignX \<and> action (h ! 12) = Assign"
proof -
  have p: "sample_parser src_assign = Inr tree_assign"
    by (simp add: sample_parser_def src_defs)
  have l: "14 < length (origins tree_assign)" "7 < length (origins tree_assign)"
    "12 < length (origins tree_assign)"
    by (simp_all add: tree_defs origins_eval)
  have o14: "origins tree_assign ! 14 =
      Some (ast_BinaryExpr (ast_Ident ''a'') token_ADD (ast_Ident ''b''))"
    by (simp add: tree_defs origins_eval)
  have o7: "origins tree_assign ! 7 =
      Some (ast_AssignStmt [ast_Ident ''a'', ast_Ident ''b''] [ast_CallExpr (ast_Ident ''g'') []])"
    by (simp add: tree_defs origins_eval)
  have o12: "origins tree_assign ! 12 =
      Some (ast_AssignStmt [ast_Ident ''c'']
              [ast_BinaryExpr (ast_Ident ''a'') token_ADD (ast_Ident ''b'')])"
    by (simp add: tree_defs origins_eval)
  from binary_and_assign_action [where ParseFile = sample_parser and src = src_assign, OF p l(1)]
  obtain h r d where h: "Ast sample_parser src_assign = Inr (h, r, d)" "action (h ! 14) = Add"
    using o14 by auto
  from binary_and_assign_action [where ParseFile = sample_parser and src = src_assign, OF p l(2)]
  have "action (h ! 7) = AssignX"
    using o7 h(1) by auto
  moreover
  from binary_and_assign_action [where ParseFile = sample_parser and src = src_assign, OF p l(3)]
  have "action (h ! 12) = Assign"
    using o12 h(1) by auto
  ultimately show ?thesis
    using h by blast
qed

section \<open>The claim about a failure of the parser\<close>

text \<open>
  Claim C2 (amended). When the surface parser fails on the submitted source, \<open>Ast\<close> panics
  with the parser's error, which carries the message, and returns nothing: \<open>Ast\<close> returns to
  its caller exactly when the parser succeeds, and its results \<^verbatim>\<open>(*Node, Def)\<close> hold no error
  value. This holds for every parser and every input string.
\<close>

theorem parse_failure_panics:
  "((\<exists>res. Ast ParseFile src = Inr res) = (\<exists>f. ParseFile src = Inr f)) \<and>
   (\<forall>err. ParseFile src = Inl err \<longrightarrow> Ast ParseFile src = Inl (ParsePanic err))"
proof (cases "ParseFile src")
  case (Inl err)
  then show ?thesis by (simp add: Ast_def)
next
  case (Inr f)
  from Ast_result [of ParseFile src f, OF Inr] show ?thesis
    using Inr by auto
qed

theorem parse_failure_panics_witness:
  "sample_parser [] = Inl eof_error \<and> Ast sample_parser [] = Inl (ParsePanic eof_error)"
proof -
  have p: "sample_parser [] = Inl eof_error"
    by (simp add: sample_parser_def src_defs)
  from parse_failure_panics [of sample_parser "[]"] p show ?thesis
    by simp
qed

text \<open>
  Claim C2 as stated fails: on the empty source the parser fails, and \<open>Ast\<close> does not return
  an error value, it does not return at all.
\<close>

theorem parse_failure_counterexample:
  "sample_parser [] = Inl eof_error \<and> (\<nexists>res. Ast sample_parser [] = Inr res)"
  by (simp add: sample_parser_def src_defs Ast_def)

section \<open>The claims about the node graph\<close>

lemma Ast_graph:
  assumes "ParseFile src = Inr f"
  shows "\<exists>s. Ast ParseFile src = Inr (heap s, root s, def_map s)
      \<and> length (heap s) = length (origins f)
      \<and> (\<forall>i<length (heap s). kind (heap s ! i) = fst (lowered (origins f ! i)))
      \<and> graph_inv s"
proof -
  from Ast_result [of ParseFile src f, OF assms] obtain s where
    s: "Ast ParseFile src = Inr (heap s, root s, def_map s)"
       "map shape (heap s) = map lowered (origins f)" "graph_inv s"
    by (elim exE conjE)
  have l: "length (heap s) = length (origins f)"
    using s(2) by (metis length_map)
  have "kind (heap s ! i) = fst (lowered (origins f ! i))" if "i < length (heap s)" for i
  proof -
    have "map shape (heap s) ! i = map lowered (origins f) ! i"
      using s(2) by simp
    then have "shape (heap s ! i) = lowered (origins f ! i)"
      using that l by simp
    then have "fst (shape (heap s ! i)) = fst (lowered (origins f ! i))"
      by simp
    then show ?thesis by (simp add: shape_def)
  qed
  then show ?thesis
    using s(1,3) l by blast
qed

lemma addChild_facts:
  assumes "\<And>q. anc_arg = Some q \<Longrightarrow> q < length (heap s)"
    and "addChild s anc_arg k a = (s', n)"
  shows "n = length (heap s)" "length (heap s') = Suc n"
    "index_var s' = int_wrap (index_var s + 1)"
    "heap s' ! n = \<lparr>Child = [], Start = n, anc = anc_arg, index = index_var s', kind = k,
        action = a, ident = [], val = EmptyCell\<rparr>"
    "anc_arg = None \<Longrightarrow> root s' = Some n"
    "anc_arg = Some q \<Longrightarrow> root s' = root s \<and> Child (heap s' ! q) = Child (heap s ! q) @ [n]"
  using assms(2) assms(1) [of q]
  by (auto simp: addChild_eq [OF assms(1)] nth_append attach_nth)

text \<open>
  Claim C5. Every call of \<open>addChild\<close> increments the shared counter (as Go's \<^verbatim>\<open>int\<close> does,
  that is without wrapping while the counter is below the largest \<^verbatim>\<open>int\<close>), gives the new
  counter value to the new node as its index, sets the node's \<open>Start\<close> to the node's own
  address, and sets the root when the ancestor is absent or else appends the node as the last
  child of the ancestor. Consequently the nodes of one lowering carry the indices
  \<open>1, 2, 3, ...\<close> in the order of their creation: the indices are distinct and strictly
  increasing. The second part is stated for a lowering that creates fewer than
  \<open>2 ^ (IntSize - 1)\<close> nodes, which is every lowering that fits the address space.
\<close>

theorem addChild_contract_and_index_order:
  "((\<forall>q. anc_arg = Some q \<longrightarrow> q < length (heap s)) \<longrightarrow>
      (\<exists>s' n. addChild s anc_arg k a = (s', n) \<and> n = length (heap s) \<and>
         length (heap s') = Suc n \<and>
         index_var s' = int_wrap (index_var s + 1) \<and>
         (0 \<le> index_var s + 1 \<and> index_var s + 1 < 2 ^ (IntSize - 1) \<longrightarrow>
            index_var s' = index_var s + 1) \<and>
         index (heap s' ! n) = index_var s' \<and> Start (heap s' ! n) = n \<and>
         anc (heap s' ! n) = anc_arg \<and> kind (heap s' ! n) = k \<and> action (heap s' ! n) = a \<and>
         (anc_arg = None \<longrightarrow> root s' = Some n) \<and>
         (\<forall>q. anc_arg = Some q \<longrightarrow>
            root s' = root s \<and> Child (heap s' ! q) = Child (heap s ! q) @ [n]))) \<and>
   (\<forall>ParseFile src f.
      ParseFile src = Inr f \<longrightarrow> int (length (origins f)) < 2 ^ (IntSize - 1) \<longrightarrow>
      (\<exists>h r d. Ast ParseFile src = Inr (h, r, d) \<and> length h = length (origins f) \<and>
         (\<forall>i<length h. index (h ! i) = int i + 1) \<and>
         (\<forall>i j. i < j \<longrightarrow> j < length h \<longrightarrow> index (h ! i) < index (h ! j)) \<and>
         distinct (map index h)))"
proof (intro conjI impI allI)
  assume v: "\<forall>q. anc_arg = Some q \<longrightarrow> q < length (heap s)"
  obtain s' n where e: "addChild s anc_arg k a = (s', n)"
    by (cases "addChild s anc_arg k a")
  have v': "\<And>q. anc_arg = Some q \<Longrightarrow> q < length (heap s)"
    using v by simp
  note f = addChild_facts [OF v' e]
  have "0 \<le> index_var s + 1 \<and> index_var s + 1 < 2 ^ (IntSize - 1) \<longrightarrow>
      index_var s' = index_var s + 1"
    using f(3) by (simp add: int_wrap_small)
  then show "\<exists>s' n. addChild s anc_arg k a = (s', n) \<and> n = length (heap s) \<and>
         length (heap s') = Suc n \<and>
         index_var s' = int_wrap (index_var s + 1) \<and>
         (0 \<le> index_var s + 1 \<and> index_var s + 1 < 2 ^ (IntSize - 1) \<longrightarrow>
            index_var s' = index_var s + 1) \<and>
         index (heap s' ! n) = index_var s' \<and> Start (heap s' ! n) = n \<and>
         anc (heap s' ! n) = anc_arg \<and> kind (heap s' ! n) = k \<and> action (heap s' ! n) = a \<and>
         (anc_arg = None \<longrightarrow> root s' = Some n) \<and>
         (\<forall>q. anc_arg = Some q \<longrightarrow>
            root s' = root s \<and> Child (heap s' ! q) = Child (heap s ! q) @ [n])"
    using e f(1,2,3) f(4) f(5) f(6) by (intro exI [of _ s'] exI [of _ n]) simp
next
  fix ParseFile :: "string \<Rightarrow> string + gonode" and src f
  assume p: "ParseFile src = Inr f" and b: "int (length (origins f)) < 2 ^ (IntSize - 1)"
  from Ast_graph [of ParseFile src f, OF p] obtain s where
    s: "Ast ParseFile src = Inr (heap s, root s, def_map s)"
       "length (heap s) = length (origins f)" "graph_inv s"
    by (elim exE conjE)
  have idx: "index (heap s ! i) = int i + 1" if "i < length (heap s)" for i
  proof -
    have "index (heap s ! i) = int_wrap (int i + 1)"
      using s(3) that by (simp add: graph_inv_def)
    moreover have "int i + 1 \<le> int (length (origins f))"
      using that s(2) by simp
    then have "int i + 1 < 2 ^ (IntSize - 1)"
      using b by linarith
    ultimately show ?thesis by (simp add: int_wrap_small)
  qed
  have "distinct (map index (heap s))"
    by (auto simp: distinct_conv_nth idx)
  then show "\<exists>h r d. Ast ParseFile src = Inr (h, r, d) \<and> length h = length (origins f) \<and>
         (\<forall>i<length h. index (h ! i) = int i + 1) \<and>
         (\<forall>i j. i < j \<longrightarrow> j < length h \<longrightarrow> index (h ! i) < index (h ! j)) \<and>
         distinct (map index h)"
    using s(1,2) idx by (intro exI [of _ "heap s"] exI [of _ "root s"] exI [of _ "def_map s"]) simp
qed

definition state_after_File :: lowering where
  \<comment> \<open>the state after the visit of the root of a file\<close>
  "state_after_File = \<lparr>heap = [\<lparr>Child = [], Start = 0, anc = None, index = 1, kind = File,
       action = Nop, ident = [], val = EmptyCell\<rparr>],
     root = Some 0, index_var = 1, st = [0], def_map = Map.empty, out = []\<rparr>"

theorem addChild_contract_and_index_order_witness:
  "(\<exists>s' n. addChild init_lowering None File Nop = (s', n) \<and> n = 0 \<and> index_var s' = 1 \<and>
      index (heap s' ! 0) = 1 \<and> Start (heap s' ! 0) = 0 \<and> root s' = Some 0) \<and>
   (\<exists>s' n. addChild state_after_File (Some 0) Ident Nop = (s', n) \<and> n = 1 \<and>
      index_var s' = 2 \<and> index (heap s' ! 1) = 2 \<and> Start (heap s' ! 1) = 1 \<and>
      root s' = Some 0 \<and> Child (heap s' ! 0) = [1]) \<and>
   (\<exists>h r d. Ast sample_parser src_for_cond = Inr (h, r, d) \<and> length h = 10 \<and>
      index (h ! 0) = 1 \<and> index (h ! 1) = 2 \<and> index (h ! 9) = 10 \<and> distinct (map index h))"
proof -
  have p: "sample_parser src_for_cond = Inr tree_for_cond"
    by (simp add: sample_parser_def src_defs)
  have l: "length (origins tree_for_cond) = 10"
    by (simp add: tree_defs origins_eval)
  have bnd: "int (length (origins tree_for_cond)) < 2 ^ (IntSize - 1)"
    by (simp add: l IntSize_def)
  have w1: "int_wrap (0 + 1) = 1" "int_wrap (1 + 1) = 2"
    by (simp_all add: int_wrap_def IntSize_def)
  have v1: "\<forall>q. None = Some q \<longrightarrow> q < length (heap init_lowering)"
    by simp
  from addChild_contract_and_index_order [of None init_lowering File Nop, THEN conjunct1,
      THEN mp, OF v1]
  obtain s1 n1 where a: "addChild init_lowering None File Nop = (s1, n1) \<and>
         n1 = length (heap init_lowering) \<and> length (heap s1) = Suc n1 \<and>
         index_var s1 = int_wrap (index_var init_lowering + 1) \<and>
         (0 \<le> index_var init_lowering + 1 \<and> index_var init_lowering + 1 < 2 ^ (IntSize - 1) \<longrightarrow>
            index_var s1 = index_var init_lowering + 1) \<and>
         index (heap s1 ! n1) = index_var s1 \<and> Start (heap s1 ! n1) = n1 \<and>
         anc (heap s1 ! n1) = None \<and> kind (heap s1 ! n1) = File \<and> action (heap s1 ! n1) = Nop \<and>
         ((None :: nat option) = None \<longrightarrow> root s1 = Some n1) \<and>
         (\<forall>q. None = Some q \<longrightarrow>
            root s1 = root init_lowering \<and>
            Child (heap s1 ! q) = Child (heap init_lowering ! q) @ [n1])"
    by (elim exE)
  have a': "\<exists>s' n. addChild init_lowering None File Nop = (s', n) \<and> n = 0 \<and> index_var s' = 1 \<and>
      index (heap s' ! 0) = 1 \<and> Start (heap s' ! 0) = 0 \<and> root s' = Some 0"
    using a w1 by (intro exI [of _ s1] exI [of _ n1]) (auto simp: init_lowering_def)
  have v2: "\<forall>q. Some 0 = Some q \<longrightarrow> q < length (heap state_after_File)"
    by (simp add: state_after_File_def)
  from addChild_contract_and_index_order [of "Some 0" state_after_File Ident Nop, THEN conjunct1,
      THEN mp, OF v2]
  obtain s2 n2 where b: "addChild state_after_File (Some 0) Ident Nop = (s2, n2) \<and>
         n2 = length (heap state_after_File) \<and> length (heap s2) = Suc n2 \<and>
         index_var s2 = int_wrap (index_var state_after_File + 1) \<and>
         (0 \<le> index_var state_after_File + 1 \<and>
            index_var state_after_File + 1 < 2 ^ (IntSize - 1) \<longrightarrow>
            index_var s2 = index_var state_after_File + 1) \<and>
         index (heap s2 ! n2) = index_var s2 \<and> Start (heap s2 ! n2) = n2 \<and>
         anc (heap s2 ! n2) = Some 0 \<and> kind (heap s2 ! n2) = Ident \<and>
         action (heap s2 ! n2) = Nop \<and>
         (Some (0 :: nat) = None \<longrightarrow> root s2 = Some n2) \<and>
         (\<forall>q. Some 0 = Some q \<longrightarrow>
            root s2 = root state_after_File \<and>
            Child (heap s2 ! q) = Child (heap state_after_File ! q) @ [n2])"
    by (elim exE)
  have b': "\<exists>s' n. addChild state_after_File (Some 0) Ident Nop = (s', n) \<and> n = 1 \<and>
      index_var s' = 2 \<and> index (heap s' ! 1) = 2 \<and> Start (heap s' ! 1) = 1 \<and>
      root s' = Some 0 \<and> Child (heap s' ! 0) = [1]"
    using b w1 by (intro exI [of _ s2] exI [of _ n2]) (auto simp: state_after_File_def)
  from addChild_contract_and_index_order [of None init_lowering File Nop, THEN conjunct2,
      rule_format, where ParseFile = sample_parser and src = src_for_cond, OF p bnd]
  obtain h r d where h: "Ast sample_parser src_for_cond = Inr (h, r, d) \<and>
    length h = length (origins tree_for_cond) \<and> (\<forall>i<length h. index (h ! i) = int i + 1) \<and>
    (\<forall>i j. i < j \<longrightarrow> j < length h \<longrightarrow> index (h ! i) < index (h ! j)) \<and>
    distinct (map index h)"
    by (elim exE)
  have "index (h ! 0) = 1 \<and> index (h ! 1) = 2 \<and> index (h ! 9) = 10"
    using h l by auto
  then have c': "\<exists>h r d. Ast sample_parser src_for_cond = Inr (h, r, d) \<and> length h = 10 \<and>
      index (h ! 0) = 1 \<and> index (h ! 1) = 2 \<and> index (h ! 9) = 10 \<and> distinct (map index h)"
    using h l by (intro exI [of _ h] exI [of _ r] exI [of _ d]) auto
  from a' b' c' show ?thesis by (intro conjI)
qed

text \<open>
  Claim C6. For every surface range loop the lowering first creates a node of kind
  \<open>ForRangeStmt\<close>, to which no surface node corresponds, and then the node of the range
  statement itself, of kind \<open>RangeStmt\<close> and action \<open>Range\<close>, as the child of the former.
  Every node of kind \<open>ForRangeStmt\<close> that \<open>Ast\<close> returns is such a synthetic node, and its
  children are exactly that one \<open>RangeStmt\<close> node, created right after it.
\<close>

theorem for_range_has_range_child:
  assumes "ParseFile src = Inr f"
  shows "\<exists>h r d. Ast ParseFile src = Inr (h, r, d) \<and> length h = length (origins f) \<and>
     (\<forall>i<length h.
        ((\<exists>Key Value X Body. origins f ! i = Some (ast_RangeStmt Key Value X Body)) \<longrightarrow>
           0 < i \<and> origins f ! (i - 1) = None \<and> kind (h ! (i - 1)) = ForRangeStmt \<and>
           Child (h ! (i - 1)) = [i] \<and> kind (h ! i) = RangeStmt \<and>
           action (h ! i) = Range_action \<and> anc (h ! i) = Some (i - 1)) \<and>
        (kind (h ! i) = ForRangeStmt \<longrightarrow>
           origins f ! i = None \<and> Suc i < length h \<and> Child (h ! i) = [Suc i] \<and>
           kind (h ! Suc i) = RangeStmt \<and> action (h ! Suc i) = Range_action \<and>
           anc (h ! Suc i) = Some i))"
proof -
  from Ast_graph [of ParseFile src f, OF assms] obtain s where
    s: "Ast ParseFile src = Inr (heap s, root s, def_map s)"
       "length (heap s) = length (origins f)"
       "\<forall>i<length (heap s). kind (heap s ! i) = fst (lowered (origins f ! i))"
       "graph_inv s"
    by (elim exE conjE)
  have synthetic: "origins f ! i = None"
    if "i < length (heap s)" "kind (heap s ! i) = ForRangeStmt" for i
  proof (cases "origins f ! i")
    case None
    then show ?thesis .
  next
    case (Some node)
    with s(3) that have "kind_of node = ForRangeStmt" by auto
    with kind_of_not_ForRangeStmt show ?thesis by simp
  qed
  have fr: "Suc i < length (heap s) \<and> Child (heap s ! i) = [Suc i] \<and>
      kind (heap s ! Suc i) = RangeStmt \<and> action (heap s ! Suc i) = Range_action \<and>
      anc (heap s ! Suc i) = Some i"
    if "i < length (heap s)" "kind (heap s ! i) = ForRangeStmt" for i
    using s(4) that by (simp add: graph_inv_def)
  have rg: "0 < i \<and> origins f ! (i - 1) = None \<and> kind (heap s ! (i - 1)) = ForRangeStmt \<and>
      Child (heap s ! (i - 1)) = [i] \<and> kind (heap s ! i) = RangeStmt \<and>
      action (heap s ! i) = Range_action \<and> anc (heap s ! i) = Some (i - 1)"
    if "i < length (heap s)" "origins f ! i = Some (ast_RangeStmt Key Value X Body)"
    for i Key Value X Body
  proof -
    have k: "kind (heap s ! i) = RangeStmt"
      using s(3) that by simp
    then have p: "0 < i" "kind (heap s ! (i - 1)) = ForRangeStmt"
      using s(4) that(1) by (simp_all add: graph_inv_def)
    have "i - 1 < length (heap s)" using that(1) by simp
    from fr [OF this p(2)] synthetic [OF this p(2)] p k show ?thesis
      by simp
  qed
  have main: "\<forall>i<length (heap s).
        ((\<exists>Key Value X Body. origins f ! i = Some (ast_RangeStmt Key Value X Body)) \<longrightarrow>
           0 < i \<and> origins f ! (i - 1) = None \<and> kind (heap s ! (i - 1)) = ForRangeStmt \<and>
           Child (heap s ! (i - 1)) = [i] \<and> kind (heap s ! i) = RangeStmt \<and>
           action (heap s ! i) = Range_action \<and> anc (heap s ! i) = Some (i - 1)) \<and>
        (kind (heap s ! i) = ForRangeStmt \<longrightarrow>
           origins f ! i = None \<and> Suc i < length (heap s) \<and> Child (heap s ! i) = [Suc i] \<and>
           kind (heap s ! Suc i) = RangeStmt \<and> action (heap s ! Suc i) = Range_action \<and>
           anc (heap s ! Suc i) = Some i)"
  proof (intro allI impI)
    fix i
    assume i: "i < length (heap s)"
    show "((\<exists>Key Value X Body. origins f ! i = Some (ast_RangeStmt Key Value X Body)) \<longrightarrow>
           0 < i \<and> origins f ! (i - 1) = None \<and> kind (heap s ! (i - 1)) = ForRangeStmt \<and>
           Child (heap s ! (i - 1)) = [i] \<and> kind (heap s ! i) = RangeStmt \<and>
           action (heap s ! i) = Range_action \<and> anc (heap s ! i) = Some (i - 1)) \<and>
        (kind (heap s ! i) = ForRangeStmt \<longrightarrow>
           origins f ! i = None \<and> Suc i < length (heap s) \<and> Child (heap s ! i) = [Suc i] \<and>
           kind (heap s ! Suc i) = RangeStmt \<and> action (heap s ! Suc i) = Range_action \<and>
           anc (heap s ! Suc i) = Some i)"
    proof (rule conjI; rule impI)
      assume "\<exists>Key Value X Body. origins f ! i = Some (ast_RangeStmt Key Value X Body)"
      then obtain Key Value X Body where
        "origins f ! i = Some (ast_RangeStmt Key Value X Body)"
        by (elim exE)
      from rg [OF i this]
      show "0 < i \<and> origins f ! (i - 1) = None \<and> kind (heap s ! (i - 1)) = ForRangeStmt \<and>
           Child (heap s ! (i - 1)) = [i] \<and> kind (heap s ! i) = RangeStmt \<and>
           action (heap s ! i) = Range_action \<and> anc (heap s ! i) = Some (i - 1)" .
    next
      assume k: "kind (heap s ! i) = ForRangeStmt"
      from fr [OF i k] synthetic [OF i k]
      show "origins f ! i = None \<and> Suc i < length (heap s) \<and> Child (heap s ! i) = [Suc i] \<and>
           kind (heap s ! Suc i) = RangeStmt \<and> action (heap s ! Suc i) = Range_action \<and>
           anc (heap s ! Suc i) = Some i"
        by simp
    qed
  qed
  from s(1) s(2) main show ?thesis
    by (intro exI [of _ "heap s"] exI [of _ "root s"] exI [of _ "def_map s"] conjI)
qed

theorem for_range_has_range_child_witness:
  "origins tree_range ! 7 = None \<and>
   origins tree_range ! 8 = Some (ast_RangeStmt None None (ast_Ident ''x'') (ast_BlockStmt [])) \<and>
   (\<exists>h r d. Ast sample_parser src_range = Inr (h, r, d) \<and> length h = 11 \<and>
      kind (h ! 7) = ForRangeStmt \<and> Child (h ! 7) = [8] \<and> kind (h ! 8) = RangeStmt \<and>
      action (h ! 8) = Range_action \<and> anc (h ! 8) = Some 7)"
proof -
  have p: "sample_parser src_range = Inr tree_range"
    by (simp add: sample_parser_def src_defs)
  have l: "length (origins tree_range) = 11"
    by (simp add: tree_defs origins_eval)
  have o7: "origins tree_range ! 7 = None"
    by (simp add: tree_defs origins_eval)
  have o8: "origins tree_range ! 8 =
      Some (ast_RangeStmt None None (ast_Ident ''x'') (ast_BlockStmt []))"
    by (simp add: tree_defs origins_eval)
  from for_range_has_range_child [of sample_parser src_range tree_range, OF p]
  obtain h r d where h: "Ast sample_parser src_range = Inr (h, r, d) \<and>
     length h = length (origins tree_range) \<and>
     (\<forall>i<length h.
        ((\<exists>Key Value X Body. origins tree_range ! i = Some (ast_RangeStmt Key Value X Body)) \<longrightarrow>
           0 < i \<and> origins tree_range ! (i - 1) = None \<and> kind (h ! (i - 1)) = ForRangeStmt \<and>
           Child (h ! (i - 1)) = [i] \<and> kind (h ! i) = RangeStmt \<and>
           action (h ! i) = Range_action \<and> anc (h ! i) = Some (i - 1)) \<and>
        (kind (h ! i) = ForRangeStmt \<longrightarrow>
           origins tree_range ! i = None \<and> Suc i < length h \<and> Child (h ! i) = [Suc i] \<and>
           kind (h ! Suc i) = RangeStmt \<and> action (h ! Suc i) = Range_action \<and>
           anc (h ! Suc i) = Some i))"
    by (elim exE)
  have lh: "length h = 11" "8 < length h"
    using h l by simp_all
  from h [THEN conjunct2, THEN conjunct2, rule_format, OF lh(2), THEN conjunct1] o8
  have "kind (h ! 7) = ForRangeStmt \<and> Child (h ! 7) = [8] \<and> kind (h ! 8) = RangeStmt \<and>
      action (h ! 8) = Range_action \<and> anc (h ! 8) = Some 7"
    by simp
  with o7 o8 h [THEN conjunct1] lh(1) show ?thesis
    by (intro conjI exI [of _ h] exI [of _ r] exI [of _ d]) simp_all
qed

section \<open>Properties of the name tables\<close>

lemma length_kinds: "length kinds = 37"
  by (simp add: kinds_def keyed_array_def Kind_defs)

lemma length_actions: "length actions = 17"
  by (simp add: actions_def keyed_array_def Action_defs)

lemma Kind_String_outside:
  "k < 0 \<or> int (length kinds) < k \<Longrightarrow> Kind_String k = Inr (''kind('' @ Itoa k @ '')'')"
  by (auto simp: Kind_String_def)

lemma Action_String_outside:
  "a < 0 \<or> int (length actions) < a \<Longrightarrow> Action_String a = Inr (''action('' @ Itoa a @ '')'')"
  by (auto simp: Action_String_def)

lemma Kind_String_inside:
  "0 \<le> k \<Longrightarrow> k < int (length kinds) \<Longrightarrow>
   Kind_String k =
     Inr (if kinds ! nat k = [] then ''kind('' @ Itoa k @ '')'' else kinds ! nat k)"
  by (simp add: Kind_String_def array_index_def)

lemma Action_String_inside:
  "0 \<le> a \<Longrightarrow> a < int (length actions) \<Longrightarrow>
   Action_String a =
     Inr (if actions ! nat a = [] then ''action('' @ Itoa a @ '')'' else actions ! nat a)"
  by (simp add: Action_String_def array_index_def)

text \<open>
  Claim C10 (fails on the code). \<^verbatim>\<open>Kind.String\<close> and \<^verbatim>\<open>Action.String\<close> are claimed to
  return a string for every integer, with the fallback form at or beyond the table's length.
  At the table's length itself (\<open>37\<close> kinds, \<open>17\<close> actions) the guard \<open>k \<le> len\<close> lets the
  read \<^verbatim>\<open>kinds[k]\<close> happen, and it panics: the index is out of range. Everywhere else a
  string is returned (\<open>Kind_String_outside\<close>, \<open>Kind_String_inside\<close>).
\<close>

theorem String_panics_at_table_length:
  "Kind_String 37 = Inl IndexOutOfRange \<and> Action_String 17 = Inl IndexOutOfRange"
  by (simp add: Kind_String_def Action_String_def array_index_def length_kinds length_actions)

end
